theory Spec2Isabelle
  imports Main "HOL-Library.Multiset"
begin

section \<open>Channels\<close>

text \<open>
  A Go channel \<^verbatim>\<open>make(chan T, n)\<close> as the program uses it: a FIFO buffer of at most
  \<open>cap\<close> items, and the fact that a receiver is parked on it (\<open>recvq\<close>). A send is
  possible when a receiver is parked (the item is handed to it directly, which is the
  only way a channel of capacity 0 ever passes an item) or when the buffer has a free
  slot. \<open>taken\<close> is the history of the items receivers have taken off the channel,
  oldest first; no operation reads it, it only lets one state what a reader has received.
  Every channel of the program has one receiver (the strategy goroutine for the
  Producer's input, the reader of a Consumer for its Messages), so \<open>recvq\<close> is a flag.
\<close>

record 'a chan =
  buf :: "'a list"
  cap :: nat
  recvq :: bool
  taken :: "'a list"

definition make_chan :: "nat \<Rightarrow> 'a chan" where
  "make_chan n = \<lparr>buf = [], cap = n, recvq = False, taken = []\<rparr>"

definition chan_ready_send :: "'a chan \<Rightarrow> bool" where
  "chan_ready_send ch = (recvq ch \<or> length (buf ch) < cap ch)"

text \<open>The send itself, for a channel that is ready for it.\<close>

definition chan_send :: "'a \<Rightarrow> 'a chan \<Rightarrow> 'a chan" where
  "chan_send x ch =
     (if recvq ch then ch\<lparr>recvq := False, taken := taken ch @ [x]\<rparr>
      else ch\<lparr>buf := buf ch @ [x]\<rparr>)"

text \<open>A receiver arriving at the channel: it takes the oldest item, or parks.\<close>

definition chan_recv :: "'a chan \<Rightarrow> 'a chan" where
  "chan_recv ch =
     (case buf ch of
        [] \<Rightarrow> ch\<lparr>recvq := True\<rparr>
      | x # xs \<Rightarrow> ch\<lparr>buf := xs, taken := taken ch @ [x]\<rparr>)"

text \<open>
  \<^verbatim>\<open>select\<close> over two communication cases, in the order the source lists them. Go
  picks uniformly at random among the cases that are ready; \<open>rnd\<close> is that random draw.
  \<open>No_case\<close>: none is ready (the \<^verbatim>\<open>default\<close> branch when the select has one,
  otherwise the goroutine parks).
\<close>

datatype choice = Case1 | Case2 | No_case

definition select2 :: "nat \<Rightarrow> bool \<Rightarrow> bool \<Rightarrow> choice" where
  "select2 rnd ready1 ready2 =
     (if ready1 \<and> ready2 then (if even rnd then Case1 else Case2)
      else if ready1 then Case1
      else if ready2 then Case2
      else No_case)"

section \<open>Consumer (mpmc\_consumer.go)\<close>

text \<open>
  \<open>ident\<close> is the field \<^verbatim>\<open>id\<close>; \<open>lastUsed\<close> is a \<^verbatim>\<open>time.Time\<close>, read as an
  integer clock value (\<^verbatim>\<open>Before\<close> is \<open><\<close>); \<open>ctx_done\<close> says that
  \<^verbatim>\<open>ctx.Done()\<close> is closed (the Consumer's own cancel ran, or the parent context is
  done); \<open>closeOnce_c\<close> says that the Consumer's \<^verbatim>\<open>sync.Once\<close> has fired. The
  \<^verbatim>\<open>owner\<close> pointer is used for logging only and is left out, as is the logger.
  The dispatch loops write to the Consumer's queue as \<^verbatim>\<open>consumer.input\<close>; the struct
  declares the queue as \<^verbatim>\<open>Messages\<close>, the name readers use.
\<close>

record 'a Consumer =
  ident :: string
  Messages :: "'a chan"
  lastUsed :: int
  ctx_done :: bool
  closeOnce_c :: bool

definition newConsumer :: "string \<Rightarrow> bool \<Rightarrow> int \<Rightarrow> nat \<Rightarrow> 'a Consumer" where
  "newConsumer new_id parent_done now consumer_buffer_size =
     \<lparr>ident = new_id, Messages = make_chan consumer_buffer_size, lastUsed = now,
      ctx_done = parent_done, closeOnce_c = False\<rparr>"

definition Consumer_Close :: "'a Consumer \<Rightarrow> 'a Consumer" where
  "Consumer_Close c = (if closeOnce_c c then c else c\<lparr>closeOnce_c := True, ctx_done := True\<rparr>)"

section \<open>ConsumerList\<close>

text \<open>
  A ConsumerList is a slice of Consumer pointers. Pointers are natural numbers
  (addresses into the store \<open>heap\<close> below).
\<close>

definition ConsumerList_Less :: "(nat \<Rightarrow> 'a Consumer) \<Rightarrow> nat \<Rightarrow> nat \<Rightarrow> bool" where
  "ConsumerList_Less h a b = (lastUsed (h a) < lastUsed (h b))"

text \<open>
  \<^verbatim>\<open>sort.Sort\<close> belongs to Go's standard library and is a parameter \<open>srt\<close> of the
  model. Its contract: the result is a rearrangement of the slice in ascending order of
  \<^verbatim>\<open>Less\<close> (no stability is promised), and it reads the data through \<^verbatim>\<open>Less\<close> on
  elements of the slice only, so the result is a function of the slice's order and of
  those comparisons.
\<close>

definition sort_contract :: "((nat \<Rightarrow> nat \<Rightarrow> bool) \<Rightarrow> nat list \<Rightarrow> nat list) \<Rightarrow> bool" where
  "sort_contract srt \<longleftrightarrow>
     (\<forall>key xs. mset (srt (\<lambda>a b. (key a :: int) < key b) xs) = mset xs
        \<and> sorted_wrt (\<lambda>a b. key a \<le> key b) (srt (\<lambda>a b. key a < key b) xs))
   \<and> (\<forall>lt lt' xs. (\<forall>a\<in>set xs. \<forall>b\<in>set xs. lt a b = lt' a b)
        \<longrightarrow> srt lt xs = srt lt' xs)"

text \<open>
  One sort that meets the contract: insertion sort, which is what \<^verbatim>\<open>sort.Sort\<close> runs
  on a slice shorter than 12. An element moves left while it is less than its left
  neighbour.
\<close>

fun insert_left :: "('a \<Rightarrow> 'a \<Rightarrow> bool) \<Rightarrow> 'a \<Rightarrow> 'a list \<Rightarrow> 'a list" where
  "insert_left lt x [] = [x]"
| "insert_left lt x (y # ys) = (if lt x y then x # y # ys else y # insert_left lt x ys)"

definition insertion_sort :: "('a \<Rightarrow> 'a \<Rightarrow> bool) \<Rightarrow> 'a list \<Rightarrow> 'a list" where
  "insertion_sort lt xs = foldl (\<lambda>acc x. insert_left lt x acc) [] xs"

text \<open>
  The removal loop of the goroutine that CreateConsumer starts: the first entry that
  is the Consumer is cut out, and the loop stops; a slice without it is left as it is.
\<close>

fun removeByIdentity :: "nat \<Rightarrow> nat list \<Rightarrow> nat list" where
  "removeByIdentity p [] = []"
| "removeByIdentity p (c # cs) = (if c = p then cs else c # removeByIdentity p cs)"

section \<open>Producer (mpmc\_fanout.go)\<close>

datatype error = ErrProducerClosed | ErrBufferFull

datatype panic = Close_of_closed_channel

type_synonym ProducerKind = int

definition ProducerKind_Single :: ProducerKind where "ProducerKind_Single = 0"
definition ProducerKind_LRU :: ProducerKind where "ProducerKind_LRU = 1"
definition ProducerKind_All :: ProducerKind where "ProducerKind_All = 2"

text \<open>Where the strategy goroutine (\<^verbatim>\<open>goroutine_Producer_single/lru/all\<close>) stands.\<close>

datatype 'a loop =
    Not_started
  | At_select
  | Holding 'a
  | Exited

text \<open>
  The Producer struct, the store of the Consumers it has created, and the goroutines
  NewProducer and CreateConsumer start.
  \<^item> \<open>input\<close>, \<open>consumer_buffer_size\<close>, \<open>consumers\<close>, \<open>closeOnce\<close>: the struct's fields;
    \<open>done_chan\<close> is the field \<^verbatim>\<open>done\<close> and says that the channel is closed. The mutex
    is not a field: every section that holds it is one step of the model.
  \<open>kind\<close>: the ProducerKind given to NewProducer, that is which loop \<open>dispatch\<close> runs.
  \<^item> \<open>heap\<close>, \<open>nalloc\<close>: the Consumers allocated so far live at addresses
    \<open>0 ..< nalloc\<close>.
  \<^item> \<open>dispatch\<close>: the strategy goroutine; \<open>closer_done\<close>: the goroutine of NewProducer
    that waits for \<^verbatim>\<open>done\<close> has run; \<open>removers\<close>: the Consumers whose removal
    goroutine (started by CreateConsumer) has not run yet.
\<close>

record 'a Producer =
  input :: "'a chan"
  consumer_buffer_size :: nat
  consumers :: "nat list"
  done_chan :: bool
  closeOnce :: bool
  kind :: ProducerKind
  heap :: "nat \<Rightarrow> 'a Consumer"
  nalloc :: nat
  dispatch :: "'a loop"
  closer_done :: bool
  removers :: "nat set"

definition nil_consumer :: "'a Consumer" where
  "nil_consumer = \<lparr>ident = [], Messages = make_chan 0, lastUsed = 0, ctx_done = False,
     closeOnce_c = False\<rparr>"

definition NewProducer :: "ProducerKind \<Rightarrow> nat \<Rightarrow> nat \<Rightarrow> 'a Producer" where
  "NewProducer k input_buffer_size consumer_buffer_size' =
     \<lparr>input = make_chan input_buffer_size,
      consumer_buffer_size = consumer_buffer_size',
      consumers = [],
      done_chan = False,
      closeOnce = False,
      kind = k,
      heap = (\<lambda>_. nil_consumer),
      nalloc = 0,
      dispatch = (if k = ProducerKind_Single \<or> k = ProducerKind_LRU \<or> k = ProducerKind_All
                  then At_select else Not_started),
      closer_done = False,
      removers = {}\<rparr>"

text \<open>
  Write: a select over the send on \<open>input\<close> and the receive on \<^verbatim>\<open>done\<close>, with a
  default. A send to the parked strategy goroutine hands it the item.
\<close>

definition send_input :: "'a \<Rightarrow> 'a Producer \<Rightarrow> 'a Producer" where
  "send_input item f =
     (if recvq (input f)
      then f\<lparr>input := chan_send item (input f), dispatch := Holding item\<rparr>
      else f\<lparr>input := chan_send item (input f)\<rparr>)"

definition Write :: "nat \<Rightarrow> 'a \<Rightarrow> 'a Producer \<Rightarrow> error option \<times> 'a Producer" where
  "Write rnd item f =
     (case select2 rnd (chan_ready_send (input f)) (done_chan f) of
        Case1 \<Rightarrow> (None, send_input item f)
      | Case2 \<Rightarrow> (Some ErrProducerClosed, f)
      | No_case \<Rightarrow> (Some ErrBufferFull, f))"

text \<open>
  CreateConsumer: the new Consumer is allocated, appended to the registry, and its
  removal goroutine is started. The result is the pointer and the new state.
\<close>

definition CreateConsumer ::
  "string \<Rightarrow> bool \<Rightarrow> int \<Rightarrow> 'a Producer \<Rightarrow> nat \<times> 'a Producer" where
  "CreateConsumer new_id parent_done now f =
     (let result = nalloc f in
      (result,
       f\<lparr>heap := (heap f)(result := newConsumer new_id parent_done now (consumer_buffer_size f)),
         nalloc := Suc result,
         consumers := consumers f @ [result],
         removers := insert result (removers f)\<rparr>))"

text \<open>
  Close: \<^verbatim>\<open>closeOnce.Do\<close> of \<^verbatim>\<open>close(f.done)\<close>. Closing a closed channel panics.
  Closing \<^verbatim>\<open>done\<close> wakes a strategy goroutine parked in its select: its select has
  taken the \<^verbatim>\<open>done\<close> case, so it is off the input channel and returns.
\<close>

definition close_done :: "'a Producer \<Rightarrow> panic + 'a Producer" where
  "close_done f =
     (if done_chan f then Inl Close_of_closed_channel
      else if recvq (input f)
      then Inr (f\<lparr>done_chan := True, input := (input f)\<lparr>recvq := False\<rparr>, dispatch := Exited\<rparr>)
      else Inr (f\<lparr>done_chan := True\<rparr>))"

definition Close :: "'a Producer \<Rightarrow> panic + 'a Producer" where
  "Close f =
     (if closeOnce f then Inr f
      else (case close_done f of
              Inl e \<Rightarrow> Inl e
            | Inr f' \<Rightarrow> Inr (f'\<lparr>closeOnce := True\<rparr>)))"

text \<open>
  The select at the top of each of the three loops (they are the same): receive an
  item, or see \<^verbatim>\<open>done\<close> and return, or park.
\<close>

definition loop_select :: "nat \<Rightarrow> 'a Producer \<Rightarrow> 'a Producer" where
  "loop_select rnd f =
     (case dispatch f of
        At_select \<Rightarrow>
          (case select2 rnd (buf (input f) \<noteq> []) (done_chan f) of
             Case1 \<Rightarrow> (case buf (input f) of
                         [] \<Rightarrow> f
                       | item # _ \<Rightarrow> f\<lparr>input := chan_recv (input f), dispatch := Holding item\<rparr>)
           | Case2 \<Rightarrow> f\<lparr>dispatch := Exited\<rparr>
           | No_case \<Rightarrow> f\<lparr>input := chan_recv (input f)\<rparr>)
      | _ \<Rightarrow> f)"

text \<open>
  The inner select of the loops: a send to the Consumer's queue, with a default that
  drops the item; \<open>lastUsed\<close> is set after a send that went through.
\<close>

definition try_push :: "int \<Rightarrow> 'a \<Rightarrow> 'a Consumer \<Rightarrow> 'a Consumer" where
  "try_push now item c =
     (if chan_ready_send (Messages c)
      then c\<lparr>Messages := chan_send item (Messages c), lastUsed := now\<rparr>
      else c)"

text \<open>
  The sections of the three loops that hold the mutex, for the item received.
  \<open>rnd\<close> is the draw of \<^verbatim>\<open>rand.Intn\<close>, \<open>clk i\<close> the \<open>i\<close>-th reading of
  \<^verbatim>\<open>time.Now()\<close> in the section.
\<close>

definition goroutine_Producer_single :: "nat \<Rightarrow> (nat \<Rightarrow> int) \<Rightarrow> 'a \<Rightarrow> 'a Producer \<Rightarrow> 'a Producer" where
  "goroutine_Producer_single rnd clk item f =
     (if length (consumers f) > 0
      then (let selected = consumers f ! (rnd mod length (consumers f)) in
            f\<lparr>heap := (heap f)(selected := try_push (clk 0) item (heap f selected))\<rparr>)
      else f)"

text \<open>
  \<^verbatim>\<open>sort.Sort(f.consumers)\<close> sorts the registry in place; \<^verbatim>\<open>f.consumers[0]\<close> is
  then the target. (A sort keeps the length, so the slice is not empty there.)
\<close>

definition goroutine_Producer_lru ::
  "((nat \<Rightarrow> nat \<Rightarrow> bool) \<Rightarrow> nat list \<Rightarrow> nat list) \<Rightarrow> (nat \<Rightarrow> int) \<Rightarrow> 'a \<Rightarrow> 'a Producer \<Rightarrow> 'a Producer" where
  "goroutine_Producer_lru srt clk item f =
     (if length (consumers f) > 0
      then (let sorted_consumers = srt (ConsumerList_Less (heap f)) (consumers f) in
            case sorted_consumers of
              [] \<Rightarrow> f\<lparr>consumers := sorted_consumers\<rparr>
            | lru # _ \<Rightarrow>
                f\<lparr>consumers := sorted_consumers,
                  heap := (heap f)(lru := try_push (clk 0) item (heap f lru))\<rparr>)
      else f)"

fun all_loop :: "(nat \<Rightarrow> int) \<Rightarrow> nat \<Rightarrow> 'a \<Rightarrow> nat list \<Rightarrow> (nat \<Rightarrow> 'a Consumer) \<Rightarrow> (nat \<Rightarrow> 'a Consumer)" where
  "all_loop clk i item [] h = h"
| "all_loop clk i item (consumer # rest) h =
     all_loop clk (Suc i) item rest (h(consumer := try_push (clk i) item (h consumer)))"

definition goroutine_Producer_all :: "(nat \<Rightarrow> int) \<Rightarrow> 'a \<Rightarrow> 'a Producer \<Rightarrow> 'a Producer" where
  "goroutine_Producer_all clk item f = f\<lparr>heap := all_loop clk 0 item (consumers f) (heap f)\<rparr>"

definition loop_deliver ::
  "((nat \<Rightarrow> nat \<Rightarrow> bool) \<Rightarrow> nat list \<Rightarrow> nat list) \<Rightarrow> nat \<Rightarrow> (nat \<Rightarrow> int) \<Rightarrow> 'a Producer \<Rightarrow> 'a Producer" where
  "loop_deliver srt rnd clk f =
     (case dispatch f of
        Holding item \<Rightarrow>
          (if kind f = ProducerKind_Single then goroutine_Producer_single rnd clk item f
           else if kind f = ProducerKind_LRU then goroutine_Producer_lru srt clk item f
           else goroutine_Producer_all clk item f)\<lparr>dispatch := At_select\<rparr>
      | _ \<Rightarrow> f)"

text \<open>
  The goroutine of NewProducer: once \<^verbatim>\<open>done\<close> is closed it closes every Consumer of
  the registry, holding the mutex.
\<close>

fun close_all :: "nat list \<Rightarrow> (nat \<Rightarrow> 'a Consumer) \<Rightarrow> (nat \<Rightarrow> 'a Consumer)" where
  "close_all [] h = h"
| "close_all (consumer # rest) h = close_all rest (h(consumer := Consumer_Close (h consumer)))"

definition closer :: "'a Producer \<Rightarrow> 'a Producer" where
  "closer f =
     (if done_chan f \<and> \<not> closer_done f
      then f\<lparr>heap := close_all (consumers f) (heap f), closer_done := True\<rparr>
      else f)"

text \<open>
  The goroutine CreateConsumer starts for the Consumer \<open>result\<close>: once the Consumer's
  context is done it removes the Consumer from the registry, holding the mutex.
\<close>

definition remover :: "nat \<Rightarrow> 'a Producer \<Rightarrow> 'a Producer" where
  "remover result f =
     (if result \<in> removers f \<and> ctx_done (heap f result)
      then f\<lparr>consumers := removeByIdentity result (consumers f),
             removers := removers f - {result}\<rparr>
      else f)"

section \<open>Executions\<close>

text \<open>
  What the callers and the goroutines can do, one event per atomic step: the calls of
  the API, the steps of the goroutines, the cancellation of a Consumer's context from
  outside (its parent is cancelled or its deadline passes), and the reader of a
  Consumer arriving at its queue or giving up waiting. An event that names a Consumer
  that does not exist, or a goroutine that is blocked, changes nothing.
\<close>

datatype 'a event =
    Ev_Write nat 'a
  | Ev_CreateConsumer string bool int
  | Ev_Close
  | Ev_loop_select nat
  | Ev_loop_deliver nat "nat \<Rightarrow> int"
  | Ev_closer
  | Ev_Consumer_Close nat
  | Ev_ctx_cancel nat
  | Ev_remover nat
  | Ev_reader nat
  | Ev_reader_leaves nat

definition on_consumer :: "nat \<Rightarrow> ('a Consumer \<Rightarrow> 'a Consumer) \<Rightarrow> 'a Producer \<Rightarrow> 'a Producer" where
  "on_consumer p g f = (if p < nalloc f then f\<lparr>heap := (heap f)(p := g (heap f p))\<rparr> else f)"

fun step ::
  "((nat \<Rightarrow> nat \<Rightarrow> bool) \<Rightarrow> nat list \<Rightarrow> nat list) \<Rightarrow> 'a Producer \<Rightarrow> 'a event \<Rightarrow> panic + 'a Producer" where
  "step srt f (Ev_Write rnd item) = Inr (snd (Write rnd item f))"
| "step srt f (Ev_CreateConsumer new_id parent_done now) = Inr (snd (CreateConsumer new_id parent_done now f))"
| "step srt f Ev_Close = Close f"
| "step srt f (Ev_loop_select rnd) = Inr (loop_select rnd f)"
| "step srt f (Ev_loop_deliver rnd clk) = Inr (loop_deliver srt rnd clk f)"
| "step srt f Ev_closer = Inr (closer f)"
| "step srt f (Ev_Consumer_Close p) = Inr (on_consumer p Consumer_Close f)"
| "step srt f (Ev_ctx_cancel p) = Inr (on_consumer p (\<lambda>c. c\<lparr>ctx_done := True\<rparr>) f)"
| "step srt f (Ev_remover p) = Inr (remover p f)"
| "step srt f (Ev_reader p) = Inr (on_consumer p (\<lambda>c. c\<lparr>Messages := chan_recv (Messages c)\<rparr>) f)"
| "step srt f (Ev_reader_leaves p) = Inr (on_consumer p (\<lambda>c. c\<lparr>Messages := (Messages c)\<lparr>recvq := False\<rparr>\<rparr>) f)"

fun run ::
  "((nat \<Rightarrow> nat \<Rightarrow> bool) \<Rightarrow> nat list \<Rightarrow> nat list) \<Rightarrow> 'a Producer \<Rightarrow> 'a event list \<Rightarrow> panic + 'a Producer" where
  "run srt f [] = Inr f"
| "run srt f (e # es) = (case step srt f e of Inl x \<Rightarrow> Inl x | Inr f' \<Rightarrow> run srt f' es)"

section \<open>What the claims speak of\<close>

text \<open>
  The facts every execution keeps: \<^verbatim>\<open>done\<close> is closed exactly when the Once has
  fired; the registry holds, once each, the Consumers whose removal goroutine has not
  run, all of them allocated; the strategy goroutine is parked on the input channel
  only at its select, with the buffer empty and \<^verbatim>\<open>done\<close> open; and no strategy
  goroutine exists exactly when the kind is none of the three constants.
\<close>

definition consistent :: "'a Producer \<Rightarrow> bool" where
  "consistent f \<longleftrightarrow>
     done_chan f = closeOnce f
   \<and> distinct (consumers f)
   \<and> set (consumers f) = removers f
   \<and> (\<forall>p\<in>removers f. p < nalloc f)
   \<and> (recvq (input f) \<longrightarrow> buf (input f) = [] \<and> dispatch f = At_select \<and> \<not> done_chan f)
   \<and> ((dispatch f = Not_started) =
        (kind f \<noteq> ProducerKind_Single \<and> kind f \<noteq> ProducerKind_LRU \<and> kind f \<noteq> ProducerKind_All))"

text \<open>Everything that was ever put into a Consumer's queue, oldest first.\<close>

definition received :: "'a Consumer \<Rightarrow> 'a list" where
  "received c = taken (Messages c) @ buf (Messages c)"

text \<open>
  The Consumer the LRU section pushes to: \<^verbatim>\<open>f.consumers[0]\<close> after the sort, when
  the registry is not empty.
\<close>

definition lru_target ::
  "((nat \<Rightarrow> nat \<Rightarrow> bool) \<Rightarrow> nat list \<Rightarrow> nat list) \<Rightarrow> 'a Producer \<Rightarrow> nat option" where
  "lru_target srt f =
     (if length (consumers f) > 0
      then (case srt (ConsumerList_Less (heap f)) (consumers f) of
              [] \<Rightarrow> None
            | lru # _ \<Rightarrow> Some lru)
      else None)"

text \<open>
  What a section that delivers \<open>item\<close> in the state \<open>f\<close> may do to the store, giving
  \<open>h'\<close>: a Consumer is either left as it is, or it is registered, its queue was ready
  for the send, and it differs by that send and by its \<open>lastUsed\<close> only.
\<close>

definition only_pushed :: "'a \<Rightarrow> 'a Producer \<Rightarrow> (nat \<Rightarrow> 'a Consumer) \<Rightarrow> bool" where
  "only_pushed item f h' \<longleftrightarrow>
     (\<forall>p. h' p = heap f p
        \<or> (p \<in> set (consumers f) \<and> chan_ready_send (Messages (heap f p))
           \<and> (\<exists>t. h' p = (heap f p)\<lparr>Messages := chan_send item (Messages (heap f p)),
                                      lastUsed := t\<rparr>)))"

text \<open>
  For the conservation of the All strategy: the items of the Write calls of an
  execution, in the order of the calls; the events that register a Consumer whose
  parent context is not done; the events of a run in which nobody closes the
  Producer, creates a Consumer or cancels one; and the items the strategy goroutine
  has finished with (everything it took off the input queue, but the item it holds).
\<close>

fun writes :: "'a event list \<Rightarrow> 'a list" where
  "writes [] = []"
| "writes (Ev_Write rnd item # es) = item # writes es"
| "writes (_ # es) = writes es"

fun registers :: "'a event \<Rightarrow> bool" where
  "registers (Ev_CreateConsumer new_id parent_done now) = (\<not> parent_done)"
| "registers _ = False"

fun steady :: "'a event \<Rightarrow> bool" where
  "steady Ev_Close = False"
| "steady (Ev_CreateConsumer new_id parent_done now) = False"
| "steady (Ev_Consumer_Close p) = False"
| "steady (Ev_ctx_cancel p) = False"
| "steady _ = True"

definition processed :: "'a Producer \<Rightarrow> 'a list" where
  "processed f = (case dispatch f of Holding item \<Rightarrow> butlast (taken (input f)) | _ \<Rightarrow> taken (input f))"

text \<open>
  What holds throughout such a run under the All strategy, with \<open>cs\<close> the registry
  and \<open>ws\<close> the items written so far: the registry stays, no Consumer of it is
  cancelled, every item written is in the input queue or was taken off it, in order,
  and every registered Consumer has received exactly the items processed.
\<close>

definition all_inv :: "nat \<Rightarrow> nat \<Rightarrow> nat list \<Rightarrow> 'a list \<Rightarrow> 'a Producer \<Rightarrow> bool" where
  "all_inv icap ccap cs ws g \<longleftrightarrow>
     kind g = ProducerKind_All \<and> \<not> done_chan g
   \<and> consumers g = cs \<and> distinct cs \<and> removers g = set cs
   \<and> (dispatch g = At_select
        \<or> (\<exists>x. dispatch g = Holding x \<and> taken (input g) \<noteq> [] \<and> last (taken (input g)) = x))
   \<and> (recvq (input g) \<longrightarrow> buf (input g) = [] \<and> dispatch g = At_select)
   \<and> taken (input g) @ buf (input g) = ws
   \<and> cap (input g) = icap
   \<and> (\<forall>p\<in>set cs. p < nalloc g \<and> \<not> ctx_done (heap g p)
          \<and> cap (Messages (heap g p)) = ccap
          \<and> received (heap g p) = processed g
          \<and> (recvq (Messages (heap g p)) \<longrightarrow> buf (Messages (heap g p)) = []))"

text \<open>
  The items the strategy goroutine still has to deliver: those in the input queue and
  the one it holds. And \<open>n\<close> rounds of the loop, each the select followed by the
  section that holds the mutex.
\<close>

definition pending :: "'a Producer \<Rightarrow> nat" where
  "pending f = length (buf (input f)) + (case dispatch f of Holding item \<Rightarrow> 1 | _ \<Rightarrow> 0)"

fun drain :: "nat \<Rightarrow> (nat \<Rightarrow> int) \<Rightarrow> nat \<Rightarrow> 'a event list" where
  "drain rnd clk 0 = []"
| "drain rnd clk (Suc n) = Ev_loop_select rnd # Ev_loop_deliver rnd clk # drain rnd clk n"

text \<open>
  For the idempotence of Close: the calls of Close in an execution, the execution with
  every call of Close after the first left out, and the number of steps of an
  execution at which \<^verbatim>\<open>done\<close> goes from open to closed.
\<close>

fun is_Close :: "'a event \<Rightarrow> bool" where
  "is_Close Ev_Close = True"
| "is_Close _ = False"

fun close_once :: "bool \<Rightarrow> 'a event list \<Rightarrow> 'a event list" where
  "close_once seen [] = []"
| "close_once seen (e # es) =
     (if is_Close e then (if seen then close_once True es else e # close_once True es)
      else e # close_once seen es)"

fun flips ::
  "((nat \<Rightarrow> nat \<Rightarrow> bool) \<Rightarrow> nat list \<Rightarrow> nat list) \<Rightarrow> 'a Producer \<Rightarrow> 'a event list \<Rightarrow> nat" where
  "flips srt f [] = 0"
| "flips srt f (e # es) =
     (case step srt f e of
        Inl _ \<Rightarrow> 0
      | Inr f' \<Rightarrow> (if \<not> done_chan f \<and> done_chan f' then 1 else 0) + flips srt f' es)"

section \<open>Facts about the registry and the sort\<close>

lemma removeByIdentity_remove1: "removeByIdentity p cs = remove1 p cs"
  by (induction cs) auto

lemma mset_insert_left: "mset (insert_left lt x ys) = add_mset x (mset ys)"
  by (induction ys) auto

lemma set_insert_left: "set (insert_left lt x ys) = insert x (set ys)"
  by (induction ys) auto

lemma sorted_insert_left:
  "sorted_wrt (\<lambda>a b. (key a :: int) \<le> key b) ys \<Longrightarrow>
   sorted_wrt (\<lambda>a b. key a \<le> key b) (insert_left (\<lambda>a b. key a < key b) x ys)"
  by (induction ys) (auto simp: set_insert_left)

lemma insert_left_cong:
  "\<forall>b\<in>set ys. lt x b = lt' x b \<Longrightarrow> insert_left lt x ys = insert_left lt' x ys"
  by (induction ys) auto

lemma mset_foldl_insert_left:
  "mset (foldl (\<lambda>acc x. insert_left lt x acc) acc xs) = mset acc + mset xs"
  by (induction xs arbitrary: acc) (auto simp: mset_insert_left)

lemma sorted_foldl_insert_left:
  "sorted_wrt (\<lambda>a b. (key a :: int) \<le> key b) acc \<Longrightarrow>
   sorted_wrt (\<lambda>a b. key a \<le> key b) (foldl (\<lambda>acc x. insert_left (\<lambda>a b. key a < key b) x acc) acc xs)"
  by (induction xs arbitrary: acc) (auto simp: sorted_insert_left)

lemma foldl_insert_left_cong:
  "\<forall>a\<in>set xs. \<forall>b\<in>set acc \<union> set xs. lt a b = lt' a b \<Longrightarrow>
   foldl (\<lambda>acc x. insert_left lt x acc) acc xs = foldl (\<lambda>acc x. insert_left lt' x acc) acc xs"
proof (induction xs arbitrary: acc)
  case Nil
  then show ?case by simp
next
  case (Cons x xs)
  have "insert_left lt x acc = insert_left lt' x acc"
    using Cons.prems by (intro insert_left_cong) simp
  moreover have "\<forall>a\<in>set xs. \<forall>b\<in>set (insert_left lt' x acc) \<union> set xs. lt a b = lt' a b"
    using Cons.prems by (auto simp: set_insert_left)
  ultimately show ?case
    using Cons.IH[of "insert_left lt' x acc"] by simp
qed

text \<open>Insertion sort meets the contract of the sort.\<close>

lemma insertion_sort_contract: "sort_contract insertion_sort"
  unfolding sort_contract_def insertion_sort_def
proof (intro conjI allI impI)
  fix key :: "nat \<Rightarrow> int" and xs
  show "mset (foldl (\<lambda>acc x. insert_left (\<lambda>a b. key a < key b) x acc) [] xs) = mset xs"
    by (simp add: mset_foldl_insert_left)
  show "sorted_wrt (\<lambda>a b. key a \<le> key b) (foldl (\<lambda>acc x. insert_left (\<lambda>a b. key a < key b) x acc) [] xs)"
    by (simp add: sorted_foldl_insert_left)
next
  fix lt lt' :: "nat \<Rightarrow> nat \<Rightarrow> bool" and xs
  assume "\<forall>a\<in>set xs. \<forall>b\<in>set xs. lt a b = lt' a b"
  then show "foldl (\<lambda>acc x. insert_left lt x acc) [] xs = foldl (\<lambda>acc x. insert_left lt' x acc) [] xs"
    by (intro foldl_insert_left_cong) simp
qed

section \<open>Every execution keeps the state consistent\<close>

lemmas kinds = ProducerKind_Single_def ProducerKind_LRU_def ProducerKind_All_def

lemma consistent_NewProducer: "consistent (NewProducer k i n)"
  by (simp add: consistent_def NewProducer_def make_chan_def)

lemma sort_contract_mset:
  assumes "sort_contract srt"
  shows "mset (srt (ConsumerList_Less h) xs) = mset xs"
proof -
  have "\<forall>key xs. mset (srt (\<lambda>a b. (key a :: int) < key b) xs) = mset xs"
    using assms by (simp add: sort_contract_def)
  then have "mset (srt (\<lambda>a b. lastUsed (h a) < lastUsed (h b)) xs) = mset xs"
    by (rule allE[where x = "\<lambda>p. lastUsed (h p)"]) simp
  then show ?thesis
    by (simp add: ConsumerList_Less_def[abs_def])
qed

lemma sort_contract_sorted:
  assumes "sort_contract srt"
  shows "sorted_wrt (\<lambda>a b. lastUsed (h a) \<le> lastUsed (h b)) (srt (ConsumerList_Less h) xs)"
proof -
  have "\<forall>key xs. sorted_wrt (\<lambda>a b. (key a :: int) \<le> key b) (srt (\<lambda>a b. key a < key b) xs)"
    using assms by (simp add: sort_contract_def)
  then have "sorted_wrt (\<lambda>a b. lastUsed (h a) \<le> lastUsed (h b))
      (srt (\<lambda>a b. lastUsed (h a) < lastUsed (h b)) xs)"
    by (rule allE[where x = "\<lambda>p. lastUsed (h p)"]) simp
  then show ?thesis
    by (simp add: ConsumerList_Less_def[abs_def])
qed

lemma sort_contract_set: "sort_contract srt \<Longrightarrow> set (srt (ConsumerList_Less h) xs) = set xs"
  by (metis sort_contract_mset mset_eq_setD)

lemma sort_contract_distinct:
  "sort_contract srt \<Longrightarrow> distinct (srt (ConsumerList_Less h) xs) = distinct xs"
  by (metis sort_contract_mset mset_eq_imp_distinct_iff)

lemma sort_contract_length:
  "sort_contract srt \<Longrightarrow> length (srt (ConsumerList_Less h) xs) = length xs"
  by (metis sort_contract_mset mset_eq_length)

lemma consistent_Write: "consistent f \<Longrightarrow> consistent (snd (Write rnd item f))"
  by (auto simp: consistent_def Write_def select2_def send_input_def chan_send_def chan_ready_send_def kinds)

lemma consistent_CreateConsumer: "consistent f \<Longrightarrow> consistent (snd (CreateConsumer i d n f))"
  by (auto simp: consistent_def CreateConsumer_def Let_def less_Suc_eq)

lemma consistent_Close: "consistent f \<Longrightarrow> \<exists>f'. Close f = Inr f' \<and> consistent f'"
  by (auto simp: consistent_def Close_def close_done_def kinds)

lemma consistent_loop_select: "consistent f \<Longrightarrow> consistent (loop_select rnd f)"
  by (auto simp: consistent_def loop_select_def select2_def chan_recv_def kinds split: loop.splits list.splits)

lemma lru_fields:
  "input (goroutine_Producer_lru srt clk item f) = input f"
  "done_chan (goroutine_Producer_lru srt clk item f) = done_chan f"
  "closeOnce (goroutine_Producer_lru srt clk item f) = closeOnce f"
  "kind (goroutine_Producer_lru srt clk item f) = kind f"
  "nalloc (goroutine_Producer_lru srt clk item f) = nalloc f"
  "removers (goroutine_Producer_lru srt clk item f) = removers f"
  "dispatch (goroutine_Producer_lru srt clk item f) = dispatch f"
  by (simp_all add: goroutine_Producer_lru_def Let_def split: list.splits)

lemma lru_consumers:
  "consumers (goroutine_Producer_lru srt clk item f) =
     (if consumers f = [] then [] else srt (ConsumerList_Less (heap f)) (consumers f))"
  by (simp add: goroutine_Producer_lru_def Let_def split: list.splits)

lemma lru_mset:
  "sort_contract srt \<Longrightarrow> mset (consumers (goroutine_Producer_lru srt clk item f)) = mset (consumers f)"
  by (simp add: lru_consumers sort_contract_mset)

lemma consistent_lru:
  assumes "sort_contract srt" "consistent f" "dispatch f = Holding item"
  shows "consistent (goroutine_Producer_lru srt clk item f\<lparr>dispatch := At_select\<rparr>)"
proof -
  let ?g = "goroutine_Producer_lru srt clk item f"
  have "set (consumers ?g) = set (consumers f)" "distinct (consumers ?g) = distinct (consumers f)"
    using lru_mset[OF assms(1), of clk item f] mset_eq_setD mset_eq_imp_distinct_iff by blast+
  then show ?thesis using assms(2,3)
    by (auto simp add: consistent_def lru_fields)
qed

lemma consistent_single:
  "consistent f \<Longrightarrow> dispatch f = Holding item \<Longrightarrow>
   consistent (goroutine_Producer_single rnd clk item f\<lparr>dispatch := At_select\<rparr>)"
  by (auto simp add: consistent_def goroutine_Producer_single_def Let_def)

lemma consistent_all:
  "consistent f \<Longrightarrow> dispatch f = Holding item \<Longrightarrow>
   consistent (goroutine_Producer_all clk item f\<lparr>dispatch := At_select\<rparr>)"
  by (auto simp add: consistent_def goroutine_Producer_all_def)

lemma consistent_loop_deliver:
  "sort_contract srt \<Longrightarrow> consistent f \<Longrightarrow> consistent (loop_deliver srt rnd clk f)"
  by (simp add: loop_deliver_def consistent_lru consistent_single consistent_all split: loop.splits)

lemma consistent_closer: "consistent f \<Longrightarrow> consistent (closer f)"
  by (auto simp: consistent_def closer_def)

lemma consistent_on_consumer: "consistent f \<Longrightarrow> consistent (on_consumer p g f)"
  by (auto simp: consistent_def on_consumer_def)

lemma consistent_remover: "consistent f \<Longrightarrow> consistent (remover p f)"
  by (auto simp: consistent_def remover_def removeByIdentity_remove1)

lemma consistent_step:
  "sort_contract srt \<Longrightarrow> consistent f \<Longrightarrow> \<exists>f'. step srt f e = Inr f' \<and> consistent f'"
  by (cases e) (simp_all add: consistent_Write consistent_CreateConsumer consistent_Close
      consistent_loop_select consistent_loop_deliver consistent_closer consistent_on_consumer
      consistent_remover)

lemma consistent_run:
  "sort_contract srt \<Longrightarrow> consistent f \<Longrightarrow> \<exists>f'. run srt f es = Inr f' \<and> consistent f'"
proof (induction es arbitrary: f)
  case Nil
  then show ?case by simp
next
  case (Cons e es)
  from consistent_step[OF Cons.prems] obtain f1 where "step srt f e = Inr f1" "consistent f1"
    by blast
  with Cons.IH[OF Cons.prems(1), of f1] show ?case by simp
qed

section \<open>Facts about the operations\<close>

lemma loop_deliver_fields:
  "input (loop_deliver srt rnd clk f) = input f"
  "done_chan (loop_deliver srt rnd clk f) = done_chan f"
  "closeOnce (loop_deliver srt rnd clk f) = closeOnce f"
  "kind (loop_deliver srt rnd clk f) = kind f"
  "nalloc (loop_deliver srt rnd clk f) = nalloc f"
  "removers (loop_deliver srt rnd clk f) = removers f"
  "closer_done (loop_deliver srt rnd clk f) = closer_done f"
  "consumer_buffer_size (loop_deliver srt rnd clk f) = consumer_buffer_size f"
  by (simp_all add: loop_deliver_def goroutine_Producer_single_def goroutine_Producer_lru_def
      goroutine_Producer_all_def Let_def split: loop.splits list.splits)

lemma reachable_consistent:
  "sort_contract srt \<Longrightarrow> run srt (NewProducer k i n) evs = Inr f \<Longrightarrow> consistent f"
  using consistent_run[OF _ consistent_NewProducer, of srt k i n evs] by auto

lemmas exec_defs = NewProducer_def make_chan_def Write_def select2_def chan_ready_send_def
  send_input_def chan_send_def chan_recv_def CreateConsumer_def newConsumer_def Close_def
  close_done_def loop_select_def loop_deliver_def try_push_def goroutine_Producer_single_def
  goroutine_Producer_lru_def goroutine_Producer_all_def closer_def remover_def on_consumer_def
  Consumer_Close_def nil_consumer_def ConsumerList_Less_def insertion_sort_def received_def
  ProducerKind_Single_def ProducerKind_LRU_def ProducerKind_All_def Let_def

lemma snd_Write:
  "snd (Write rnd item f) =
     (if chan_ready_send (input f) \<and> (\<not> done_chan f \<or> even rnd) then send_input item f else f)"
  by (simp add: Write_def select2_def)

lemma fst_Write:
  "fst (Write rnd item f) =
     (if chan_ready_send (input f) \<and> (\<not> done_chan f \<or> even rnd) then None
      else if done_chan f then Some ErrProducerClosed else Some ErrBufferFull)"
  by (simp add: Write_def select2_def)

lemma run_append:
  "run srt f (xs @ ys) = (case run srt f xs of Inl e \<Rightarrow> Inl e | Inr g \<Rightarrow> run srt g ys)"
  by (induction xs arbitrary: f) (auto split: sum.splits)

lemma sort_contract_cong:
  assumes "sort_contract srt" "\<forall>a\<in>set xs. \<forall>b\<in>set xs. lt a b = lt' a b"
  shows "srt lt xs = srt lt' xs"
proof -
  have "\<forall>lt lt' xs. (\<forall>a\<in>set xs. \<forall>b\<in>set xs. lt a b = lt' a b) \<longrightarrow> srt lt xs = srt lt' xs"
    using assms(1) by (simp add: sort_contract_def)
  then show ?thesis using assms(2) by blast
qed

lemma sorted_head_least:
  assumes "sort_contract srt" "srt (ConsumerList_Less h) xs = t # rest"
  shows "t \<in> set xs" and "\<forall>c\<in>set xs. lastUsed (h t) \<le> lastUsed (h c)"
proof -
  have s: "set xs = set (t # rest)"
    using sort_contract_set[OF assms(1), of h xs] assms(2) by simp
  then show "t \<in> set xs" by simp
  have "sorted_wrt (\<lambda>a b. lastUsed (h a) \<le> lastUsed (h b)) (t # rest)"
    using sort_contract_sorted[OF assms(1), of h xs] assms(2) by simp
  then show "\<forall>c\<in>set xs. lastUsed (h t) \<le> lastUsed (h c)"
    using s by auto
qed

lemma sorted_nonempty:
  assumes "sort_contract srt" "xs \<noteq> []"
  shows "\<exists>t rest. srt (ConsumerList_Less h) xs = t # rest"
  using sort_contract_length[OF assms(1), of h xs] assms(2)
  by (cases "srt (ConsumerList_Less h) xs") auto

lemma older_sorts_before:
  assumes "sort_contract srt" "p \<in> set xs"
  shows "\<exists>ys zs. srt (ConsumerList_Less h) xs = ys @ p # zs \<and> p \<notin> set ys
           \<and> (\<forall>c\<in>set xs. lastUsed (h c) < lastUsed (h p) \<longrightarrow> c \<in> set ys)"
proof -
  let ?s = "srt (ConsumerList_Less h) xs"
  have s: "set ?s = set xs" using assms(1) by (rule sort_contract_set)
  with assms(2) have "p \<in> set ?s" by simp
  then obtain ys zs where yz: "?s = ys @ p # zs" "p \<notin> set ys"
    by (auto dest: split_list_first)
  have sw: "sorted_wrt (\<lambda>a b. lastUsed (h a) \<le> lastUsed (h b)) (ys @ p # zs)"
    using sort_contract_sorted[OF assms(1), of h xs] yz(1) by simp
  have "\<forall>c\<in>set xs. lastUsed (h c) < lastUsed (h p) \<longrightarrow> c \<in> set ys"
  proof (intro ballI impI)
    fix c assume c: "c \<in> set xs" "lastUsed (h c) < lastUsed (h p)"
    then have "c \<in> set ys \<or> c = p \<or> c \<in> set zs" using s yz(1) by auto
    moreover have "c \<noteq> p" using c(2) by auto
    moreover have "c \<notin> set zs"
    proof
      assume "c \<in> set zs"
      then have "lastUsed (h p) \<le> lastUsed (h c)"
        using sw by (auto simp: sorted_wrt_append)
      with c(2) show False by simp
    qed
    ultimately show "c \<in> set ys" by blast
  qed
  with yz show ?thesis by blast
qed

lemma try_push_cases:
  "try_push t item c = c
   \<or> (chan_ready_send (Messages c)
      \<and> try_push t item c = c\<lparr>Messages := chan_send item (Messages c), lastUsed := t\<rparr>)"
  by (simp add: try_push_def)

lemma all_loop_other: "p \<notin> set ps \<Longrightarrow> all_loop clk i item ps h p = h p"
  by (induction ps arbitrary: i h) auto

lemma all_loop_member:
  "distinct ps \<Longrightarrow> p \<in> set ps \<Longrightarrow> \<exists>j. all_loop clk i item ps h p = try_push (clk j) item (h p)"
proof (induction ps arbitrary: i h)
  case Nil
  then show ?case by simp
next
  case (Cons q ps)
  show ?case
  proof (cases "p = q")
    case True
    with Cons.prems have "p \<notin> set ps" by simp
    then have "all_loop clk i item (q # ps) h p = try_push (clk i) item (h p)"
      using True by (simp add: all_loop_other)
    then show ?thesis by blast
  next
    case False
    with Cons.prems have "distinct ps" "p \<in> set ps" by simp_all
    from Cons.IH[OF this, of "Suc i" "h(q := try_push (clk i) item (h q))"] obtain j where
      "all_loop clk (Suc i) item ps (h(q := try_push (clk i) item (h q))) p
         = try_push (clk j) item ((h(q := try_push (clk i) item (h q))) p)"
      by blast
    with False have "all_loop clk i item (q # ps) h p = try_push (clk j) item (h p)"
      by simp
    then show ?thesis by blast
  qed
qed

section \<open>The claims\<close>

subsection \<open>C1: a Write after Close\<close>

text \<open>
  C1. A Write issued after Close returns the Closed error; no post-close Write
  enqueues the item and returns success. The code does not keep this: after Close, on
  an input queue with a free slot, both cases of the select in Write are ready and
  the select may take the send. Here the Producer has an input queue of capacity 1,
  Close has been called, and Write of the item 7 (with the select drawing the send)
  returns nil and leaves 7 in the queue.
\<close>

theorem Write_after_Close_can_succeed:
  "Close (NewProducer ProducerKind_All 1 1 :: nat Producer)
     = Inr ((NewProducer ProducerKind_All 1 1)\<lparr>done_chan := True, closeOnce := True\<rparr>)
   \<and> fst (Write 0 7 ((NewProducer ProducerKind_All 1 1 :: nat Producer)\<lparr>done_chan := True, closeOnce := True\<rparr>))
       = None
   \<and> buf (input (snd (Write 0 7
        ((NewProducer ProducerKind_All 1 1 :: nat Producer)\<lparr>done_chan := True, closeOnce := True\<rparr>)))) = [7]"
  by (simp add: Close_def close_done_def NewProducer_def make_chan_def Write_def select2_def
      chan_ready_send_def send_input_def chan_send_def)

subsection \<open>C2: the target of the LRU strategy\<close>

text \<open>
  C2. Under the LRU strategy, with a registry that is not empty, the item goes to
  exactly one Consumer: the section changes the store at one address, the target; the
  target is registered and no registered Consumer has a smaller lastUsed; and which
  one it is among those with the smallest lastUsed is fixed by the order of the
  registry and the lastUsed of its Consumers (any state with that registry and those
  timestamps has the same target).
\<close>

theorem lru_picks_least_recently_used:
  assumes "sort_contract srt" "consumers f \<noteq> []"
  shows "\<exists>t. lru_target srt f = Some t
           \<and> t \<in> set (consumers f)
           \<and> (\<forall>c\<in>set (consumers f). lastUsed (heap f t) \<le> lastUsed (heap f c))
           \<and> heap (goroutine_Producer_lru srt clk item f)
               = (heap f)(t := try_push (clk 0) item (heap f t))
           \<and> (\<forall>g :: 'a Producer. consumers g = consumers f
                 \<and> (\<forall>c\<in>set (consumers f). lastUsed (heap g c) = lastUsed (heap f c))
                 \<longrightarrow> lru_target srt g = Some t)"
proof -
  from sorted_nonempty[OF assms, of "heap f"] obtain t rest where
    tr: "srt (ConsumerList_Less (heap f)) (consumers f) = t # rest"
    by blast
  have 1: "lru_target srt f = Some t"
    using tr assms(2) by (simp add: lru_target_def)
  have 2: "heap (goroutine_Producer_lru srt clk item f)
             = (heap f)(t := try_push (clk 0) item (heap f t))"
    using tr assms(2) by (simp add: goroutine_Producer_lru_def)
  have 3: "\<forall>g :: 'a Producer. consumers g = consumers f
                 \<and> (\<forall>c\<in>set (consumers f). lastUsed (heap g c) = lastUsed (heap f c))
                 \<longrightarrow> lru_target srt g = Some t"
  proof (intro allI impI)
    fix g :: "'a Producer"
    assume g: "consumers g = consumers f
                 \<and> (\<forall>c\<in>set (consumers f). lastUsed (heap g c) = lastUsed (heap f c))"
    then have "\<forall>a\<in>set (consumers f). \<forall>b\<in>set (consumers f).
        ConsumerList_Less (heap g) a b = ConsumerList_Less (heap f) a b"
      by (simp add: ConsumerList_Less_def)
    then have "srt (ConsumerList_Less (heap g)) (consumers f)
        = srt (ConsumerList_Less (heap f)) (consumers f)"
      by (rule sort_contract_cong[OF assms(1)])
    then show "lru_target srt g = Some t"
      using g tr assms(2) by (simp add: lru_target_def)
  qed
  from 1 2 3 sorted_head_least[OF assms(1) tr] show ?thesis by blast
qed

theorem lru_picks_least_recently_used_witness:
  "sort_contract insertion_sort
   \<and> consumers (projr (run insertion_sort (NewProducer ProducerKind_LRU 2 2 :: nat Producer)
        [Ev_CreateConsumer ''c0'' False 5, Ev_CreateConsumer ''c1'' False 3,
         Ev_CreateConsumer ''c2'' False 3])) = [0, 1, 2]
   \<and> lru_target insertion_sort (projr (run insertion_sort (NewProducer ProducerKind_LRU 2 2 :: nat Producer)
        [Ev_CreateConsumer ''c0'' False 5, Ev_CreateConsumer ''c1'' False 3,
         Ev_CreateConsumer ''c2'' False 3])) = Some 1
   \<and> heap (goroutine_Producer_lru insertion_sort (\<lambda>_. 9) 7
        (projr (run insertion_sort (NewProducer ProducerKind_LRU 2 2 :: nat Producer)
        [Ev_CreateConsumer ''c0'' False 5, Ev_CreateConsumer ''c1'' False 3,
         Ev_CreateConsumer ''c2'' False 3])))
     = (heap (projr (run insertion_sort (NewProducer ProducerKind_LRU 2 2 :: nat Producer)
        [Ev_CreateConsumer ''c0'' False 5, Ev_CreateConsumer ''c1'' False 3,
         Ev_CreateConsumer ''c2'' False 3])))
       (1 := try_push 9 7 (heap (projr (run insertion_sort (NewProducer ProducerKind_LRU 2 2 :: nat Producer)
        [Ev_CreateConsumer ''c0'' False 5, Ev_CreateConsumer ''c1'' False 3,
         Ev_CreateConsumer ''c2'' False 3])) 1))"
proof -
  define g where "g = projr (run insertion_sort (NewProducer ProducerKind_LRU 2 2 :: nat Producer)
        [Ev_CreateConsumer ''c0'' False 5, Ev_CreateConsumer ''c1'' False 3,
         Ev_CreateConsumer ''c2'' False 3])"
  have c: "consumers g = [0, 1, 2]"
    by (simp add: g_def exec_defs)
  have l: "lru_target insertion_sort g = Some 1"
    by (simp add: g_def lru_target_def exec_defs)
  from c have n: "consumers g \<noteq> []" by simp
  from lru_picks_least_recently_used[OF insertion_sort_contract n, of "\<lambda>_. 9" 7] l
  have h: "heap (goroutine_Producer_lru insertion_sort (\<lambda>_. 9) 7 g)
             = (heap g)(1 := try_push 9 7 (heap g 1))"
    by auto
  show ?thesis
    using insertion_sort_contract c l h unfolding g_def by blast
qed

subsection \<open>C3: conservation under the All strategy\<close>

lemma writes_Cons: "writes (e # es) = writes [e] @ writes es"
  by (cases e) auto

lemma all_inv_Write:
  assumes "all_inv icap ccap cs ws g" "length ws < icap"
  shows "all_inv icap ccap cs (ws @ [x]) (snd (Write rnd x g))"
proof -
  from assms(1) have w: "taken (input g) @ buf (input g) = ws" and c: "cap (input g) = icap"
    and d: "\<not> done_chan g"
    by (simp_all add: all_inv_def)
  from w have "length (buf (input g)) \<le> length ws" by auto
  with assms(2) c have "chan_ready_send (input g)" by (simp add: chan_ready_send_def)
  with d have s: "snd (Write rnd x g) = send_input x g" by (simp add: snd_Write)
  show ?thesis
  proof (cases "recvq (input g)")
    case True
    with assms(1) have "buf (input g) = []" "dispatch g = At_select"
      by (simp_all add: all_inv_def)
    with assms(1) True show ?thesis
      by (auto simp add: s all_inv_def send_input_def chan_send_def processed_def split: loop.splits)
  next
    case False
    with assms(1) show ?thesis
      by (auto simp add: s all_inv_def send_input_def chan_send_def processed_def split: loop.splits)
  qed
qed

lemma all_inv_select:
  assumes "all_inv icap ccap cs ws g"
  shows "all_inv icap ccap cs ws (loop_select rnd g)"
proof (cases "dispatch g = At_select")
  case False
  then show ?thesis using assms by (simp add: loop_select_def split: loop.splits)
next
  case True
  from assms have d: "\<not> done_chan g" by (simp add: all_inv_def)
  show ?thesis
  proof (cases "buf (input g)")
    case Nil
    with True d assms show ?thesis
      by (auto simp add: loop_select_def select2_def chan_recv_def all_inv_def processed_def split: loop.splits)
  next
    case (Cons x xs)
    with assms have "\<not> recvq (input g)" by (auto simp: all_inv_def)
    with Cons True d assms show ?thesis
      by (auto simp add: loop_select_def select2_def chan_recv_def all_inv_def processed_def split: loop.splits)
  qed
qed

lemma processed_cong:
  "dispatch f' = dispatch f \<Longrightarrow> input f' = input f \<Longrightarrow> processed f' = processed f"
  by (simp add: processed_def split: loop.splits)

lemma received_try_push:
  assumes "chan_ready_send (Messages c)" "recvq (Messages c) \<longrightarrow> buf (Messages c) = []"
  shows "received (try_push t x c) = received c @ [x]"
    and "cap (Messages (try_push t x c)) = cap (Messages c)"
    and "ctx_done (try_push t x c) = ctx_done c"
    and "recvq (Messages (try_push t x c)) \<longrightarrow> buf (Messages (try_push t x c)) = []"
  using assms by (auto simp: try_push_def chan_send_def received_def)

lemma all_inv_deliver:
  assumes "all_inv icap ccap cs ws g" "length ws \<le> ccap"
  shows "all_inv icap ccap cs ws (loop_deliver srt rnd clk g)"
proof (cases "dispatch g")
  case (Holding x)
  let ?g' = "loop_deliver srt rnd clk g"
  from assms(1) have k: "kind g = ProducerKind_All" and cs: "consumers g = cs" and d: "distinct cs"
    by (simp_all add: all_inv_def)
  from assms(1) Holding have t: "taken (input g) \<noteq> []" "last (taken (input g)) = x"
    by (simp_all add: all_inv_def)
  have g': "?g' = g\<lparr>heap := all_loop clk 0 x cs (heap g), dispatch := At_select\<rparr>"
    using Holding k cs
    by (simp add: loop_deliver_def goroutine_Producer_all_def ProducerKind_All_def
        ProducerKind_Single_def ProducerKind_LRU_def)
  have pg: "processed g = butlast (taken (input g))" using Holding by (simp add: processed_def)
  have pg': "processed ?g' = taken (input g)" by (simp add: g' processed_def)
  have each: "p < nalloc ?g' \<and> \<not> ctx_done (heap ?g' p)
          \<and> cap (Messages (heap ?g' p)) = ccap
          \<and> received (heap ?g' p) = processed ?g'
          \<and> (recvq (Messages (heap ?g' p)) \<longrightarrow> buf (Messages (heap ?g' p)) = [])"
    if p: "p \<in> set cs" for p
  proof -
    from assms(1) p have a: "p < nalloc g" "\<not> ctx_done (heap g p)"
      "cap (Messages (heap g p)) = ccap" "received (heap g p) = processed g"
      "recvq (Messages (heap g p)) \<longrightarrow> buf (Messages (heap g p)) = []"
      by (simp_all add: all_inv_def)
    from assms(1) have "length (taken (input g)) \<le> length ws"
      by (auto simp: all_inv_def)
    moreover have "length (buf (Messages (heap g p))) \<le> length (received (heap g p))"
      by (simp add: received_def)
    moreover have "length (processed g) < length (taken (input g))"
      using t(1) by (simp add: pg)
    ultimately have "length (buf (Messages (heap g p))) < ccap"
      using assms(2) a(4) by simp
    then have ready: "chan_ready_send (Messages (heap g p))"
      using a(3) by (simp add: chan_ready_send_def)
    from all_loop_member[OF d p, of clk 0 x "heap g"] obtain j where
      j: "heap ?g' p = try_push (clk j) x (heap g p)"
      by (auto simp: g')
    have "received (heap ?g' p) = processed g @ [x]"
      using received_try_push(1)[OF ready a(5)] a(4) j by simp
    also have "\<dots> = taken (input g)"
      using t append_butlast_last_id[of "taken (input g)"] by (simp add: pg)
    finally have r: "received (heap ?g' p) = processed ?g'" by (simp add: pg')
    from a received_try_push(2,3,4)[OF ready a(5), of "clk j" x] j r
    show ?thesis by (simp add: g')
  qed
  from assms(1) Holding have rest: "kind ?g' = ProducerKind_All \<and> \<not> done_chan ?g'
   \<and> consumers ?g' = cs \<and> distinct cs \<and> removers ?g' = set cs
   \<and> dispatch ?g' = At_select
   \<and> \<not> recvq (input ?g')
   \<and> taken (input ?g') @ buf (input ?g') = ws
   \<and> cap (input ?g') = icap"
    by (auto simp: all_inv_def g')
  with each show ?thesis
    unfolding all_inv_def by blast
qed (use assms in \<open>simp_all add: loop_deliver_def\<close>)

lemma all_inv_closer: "all_inv icap ccap cs ws g \<Longrightarrow> closer g = g"
  by (simp add: all_inv_def closer_def)

lemma all_inv_remover: "all_inv icap ccap cs ws g \<Longrightarrow> remover p g = g"
  by (auto simp: all_inv_def remover_def)

lemma all_inv_reader:
  assumes "all_inv icap ccap cs ws g"
  shows "all_inv icap ccap cs ws (on_consumer p (\<lambda>c. c\<lparr>Messages := chan_recv (Messages c)\<rparr>) g)"
proof (cases "p < nalloc g")
  case False
  then show ?thesis using assms by (simp add: on_consumer_def)
next
  case True
  let ?g' = "g\<lparr>heap := (heap g)(p := (heap g p)\<lparr>Messages := chan_recv (Messages (heap g p))\<rparr>)\<rparr>"
  have r: "received ((heap g p)\<lparr>Messages := chan_recv (Messages (heap g p))\<rparr>) = received (heap g p)"
    by (simp add: received_def chan_recv_def split: list.splits)
  have c: "cap (chan_recv (Messages (heap g p))) = cap (Messages (heap g p))"
    by (simp add: chan_recv_def split: list.splits)
  have q: "(recvq (Messages (heap g p)) \<longrightarrow> buf (Messages (heap g p)) = []) \<Longrightarrow>
      recvq (chan_recv (Messages (heap g p))) \<longrightarrow> buf (chan_recv (Messages (heap g p))) = []"
    by (auto simp: chan_recv_def split: list.splits)
  have "processed ?g' = processed g" by (rule processed_cong) simp_all
  with assms r c q have "all_inv icap ccap cs ws ?g'"
    by (auto simp: all_inv_def)
  with True show ?thesis by (simp add: on_consumer_def)
qed

lemma all_inv_reader_leaves:
  assumes "all_inv icap ccap cs ws g"
  shows "all_inv icap ccap cs ws
    (on_consumer p (\<lambda>c. c\<lparr>Messages := (Messages c)\<lparr>recvq := False\<rparr>\<rparr>) g)"
proof (cases "p < nalloc g")
  case False
  then show ?thesis using assms by (simp add: on_consumer_def)
next
  case True
  let ?g' = "g\<lparr>heap := (heap g)(p := (heap g p)\<lparr>Messages := (Messages (heap g p))\<lparr>recvq := False\<rparr>\<rparr>)\<rparr>"
  have "processed ?g' = processed g" by (rule processed_cong) simp_all
  with assms have "all_inv icap ccap cs ws ?g'"
    by (auto simp: all_inv_def received_def)
  with True show ?thesis by (simp add: on_consumer_def)
qed

lemma all_inv_step:
  assumes "all_inv icap ccap cs ws g" "steady e"
    and "length ws + length (writes [e]) \<le> icap" "length ws \<le> ccap"
  shows "\<exists>g'. step srt g e = Inr g' \<and> all_inv icap ccap cs (ws @ writes [e]) g'"
proof (cases e)
  case (Ev_Write rnd item)
  with assms(3) have "length ws < icap" by simp
  from all_inv_Write[OF assms(1) this, of item rnd] Ev_Write show ?thesis by simp
next
  case (Ev_loop_select rnd)
  with all_inv_select[OF assms(1), of rnd] show ?thesis by simp
next
  case (Ev_loop_deliver rnd clk)
  with all_inv_deliver[OF assms(1,4), of srt rnd clk] show ?thesis by simp
next
  case Ev_closer
  with assms(1) show ?thesis by (simp add: all_inv_closer)
next
  case (Ev_remover p)
  with assms(1) show ?thesis by (simp add: all_inv_remover)
next
  case (Ev_reader p)
  with all_inv_reader[OF assms(1), of p] show ?thesis by simp
next
  case (Ev_reader_leaves p)
  with all_inv_reader_leaves[OF assms(1), of p] show ?thesis by simp
qed (use assms(2) in simp_all)

lemma all_inv_run:
  assumes "all_inv icap ccap cs ws g" "list_all steady es"
    and "length ws + length (writes es) \<le> icap" "length ws + length (writes es) \<le> ccap"
  shows "\<exists>g'. run srt g es = Inr g' \<and> all_inv icap ccap cs (ws @ writes es) g'"
  using assms
proof (induction es arbitrary: ws g)
  case Nil
  then show ?case by simp
next
  case (Cons e es)
  have w: "writes (e # es) = writes [e] @ writes es" by (rule writes_Cons)
  from Cons.prems have s: "steady e" "list_all steady es" by simp_all
  have l: "length ws + length (writes [e]) \<le> icap" "length ws \<le> ccap"
    using Cons.prems(3,4) w by simp_all
  from all_inv_step[OF Cons.prems(1) s(1) l, of srt] obtain g1 where
    g1: "step srt g e = Inr g1" "all_inv icap ccap cs (ws @ writes [e]) g1"
    by blast
  have "length (ws @ writes [e]) + length (writes es) \<le> icap"
    "length (ws @ writes [e]) + length (writes es) \<le> ccap"
    using Cons.prems(3,4) w by simp_all
  from Cons.IH[OF g1(2) s(2) this] g1(1) w show ?case by simp
qed

lemma all_inv_NewProducer:
  "all_inv icap ccap [0..<nalloc (NewProducer ProducerKind_All icap ccap :: 'a Producer)] []
     (NewProducer ProducerKind_All icap ccap :: 'a Producer)"
  by (simp add: all_inv_def NewProducer_def make_chan_def)

lemma all_inv_register:
  assumes "all_inv icap ccap [0..<nalloc g] [] g" "consumer_buffer_size g = ccap" "registers e"
  shows "\<exists>g'. step srt g e = Inr g' \<and> all_inv icap ccap [0..<nalloc g'] [] g'
           \<and> consumer_buffer_size g' = ccap \<and> nalloc g' = Suc (nalloc g)"
proof (cases e)
  case (Ev_CreateConsumer new_id parent_done now)
  with assms(3) have pd: "\<not> parent_done" by simp
  let ?g' = "snd (CreateConsumer new_id parent_done now g)"
  from assms(1) have e: "taken (input g) = []" "buf (input g) = []"
    by (simp_all add: all_inv_def)
  with assms(1) have a: "dispatch g = At_select" by (auto simp: all_inv_def)
  then have p: "processed g = []" "processed ?g' = []"
    using e by (simp_all add: processed_def CreateConsumer_def Let_def)
  have n: "received (newConsumer new_id parent_done now ccap :: 'a Consumer) = []"
    by (simp add: received_def newConsumer_def make_chan_def)
  have "all_inv icap ccap [0..<Suc (nalloc g)] [] ?g'"
    using assms(1,2) pd p n a
    by (auto simp: all_inv_def CreateConsumer_def Let_def newConsumer_def make_chan_def
        less_Suc_eq)
  then show ?thesis
    using Ev_CreateConsumer assms(2) by (simp add: CreateConsumer_def Let_def)
qed (use assms(3) in simp_all)

lemma all_inv_registers_run:
  assumes "all_inv icap ccap [0..<nalloc g] [] g" "consumer_buffer_size g = ccap"
    and "list_all registers cr"
  shows "\<exists>g'. run srt g cr = Inr g' \<and> all_inv icap ccap [0..<nalloc g'] [] g'
           \<and> nalloc g' = nalloc g + length cr"
  using assms
proof (induction cr arbitrary: g)
  case Nil
  then show ?case by simp
next
  case (Cons e cr)
  from Cons.prems(3) have r: "registers e" "list_all registers cr" by simp_all
  from all_inv_register[OF Cons.prems(1,2) r(1), of srt] obtain g1 where
    g1: "step srt g e = Inr g1" "all_inv icap ccap [0..<nalloc g1] [] g1"
      "consumer_buffer_size g1 = ccap" "nalloc g1 = Suc (nalloc g)"
    by blast
  from Cons.IH[OF g1(2,3) r(2)] g1(1,4) show ?case by simp
qed

lemma dispatch_loop_deliver:
  "dispatch (loop_deliver srt rnd clk f) = (case dispatch f of Holding item \<Rightarrow> At_select | d \<Rightarrow> d)"
  by (simp add: loop_deliver_def split: loop.splits)

lemma all_inv_pending_le:
  assumes "all_inv icap ccap cs ws g"
  shows "pending g \<le> length ws"
proof -
  from assms have w: "taken (input g) @ buf (input g) = ws"
    and d: "dispatch g = At_select
        \<or> (\<exists>x. dispatch g = Holding x \<and> taken (input g) \<noteq> [] \<and> last (taken (input g)) = x)"
    by (simp_all add: all_inv_def)
  from w have l: "length ws = length (taken (input g)) + length (buf (input g))" by auto
  from d show ?thesis
  proof
    assume "dispatch g = At_select"
    then show ?thesis using l by (simp add: pending_def)
  next
    assume "\<exists>x. dispatch g = Holding x \<and> taken (input g) \<noteq> [] \<and> last (taken (input g)) = x"
    then obtain x where "dispatch g = Holding x" "taken (input g) \<noteq> []" by blast
    then have "pending g = length (buf (input g)) + 1" "1 \<le> length (taken (input g))"
      by (simp_all add: pending_def Suc_le_eq)
    then show ?thesis using l by linarith
  qed
qed

lemma all_inv_round:
  assumes "all_inv icap ccap cs ws g"
  shows "pending (loop_deliver srt rnd clk (loop_select rnd g)) = pending g - 1"
    and "dispatch (loop_deliver srt rnd clk (loop_select rnd g)) = At_select"
proof -
  from assms have nd: "\<not> done_chan g"
    and d: "dispatch g = At_select
        \<or> (\<exists>x. dispatch g = Holding x \<and> taken (input g) \<noteq> [] \<and> last (taken (input g)) = x)"
    by (simp_all add: all_inv_def)
  let ?g1 = "loop_select rnd g"
  have "pending (loop_deliver srt rnd clk ?g1) = pending g - 1
      \<and> dispatch (loop_deliver srt rnd clk ?g1) = At_select"
  proof (cases "dispatch g")
    case (Holding x)
    then have "?g1 = g" by (simp add: loop_select_def)
    with Holding show ?thesis
      by (simp add: pending_def dispatch_loop_deliver loop_deliver_fields)
  next
    case At_select
    show ?thesis
    proof (cases "buf (input g)")
      case Nil
      with At_select nd have "dispatch ?g1 = At_select" "buf (input ?g1) = []"
        by (simp_all add: loop_select_def select2_def chan_recv_def)
      with Nil At_select show ?thesis
        by (simp add: pending_def dispatch_loop_deliver loop_deliver_fields)
    next
      case (Cons x xs)
      with At_select nd have "dispatch ?g1 = Holding x" "buf (input ?g1) = xs"
        by (simp_all add: loop_select_def select2_def chan_recv_def)
      with Cons At_select show ?thesis
        by (simp add: pending_def dispatch_loop_deliver loop_deliver_fields)
    qed
  next
    case Not_started
    with d show ?thesis by simp
  next
    case Exited
    with d show ?thesis by simp
  qed
  then show "pending (loop_deliver srt rnd clk (loop_select rnd g)) = pending g - 1"
    and "dispatch (loop_deliver srt rnd clk (loop_select rnd g)) = At_select"
    by simp_all
qed

lemma all_inv_drain:
  assumes "all_inv icap ccap cs ws g" "length ws \<le> ccap" "pending g \<le> n"
  shows "\<exists>g'. run srt g (drain rnd clk n) = Inr g' \<and> all_inv icap ccap cs ws g'
           \<and> buf (input g') = [] \<and> dispatch g' = At_select"
  using assms
proof (induction n arbitrary: g)
  case 0
  then have p: "pending g = 0" by simp
  then have b: "buf (input g) = []" by (simp add: pending_def)
  have "dispatch g = At_select"
  proof (cases "dispatch g")
    case (Holding x)
    with p show ?thesis by (simp add: pending_def)
  next
    case Not_started
    with "0.prems"(1) show ?thesis by (simp add: all_inv_def)
  next
    case Exited
    with "0.prems"(1) show ?thesis by (simp add: all_inv_def)
  qed simp
  with b "0.prems"(1) show ?case by simp
next
  case (Suc n)
  let ?g1 = "loop_select rnd g"
  let ?g2 = "loop_deliver srt rnd clk ?g1"
  have i1: "all_inv icap ccap cs ws ?g1" using Suc.prems(1) by (rule all_inv_select)
  then have i2: "all_inv icap ccap cs ws ?g2" using Suc.prems(2) by (rule all_inv_deliver)
  have "pending ?g2 = pending g - 1" using Suc.prems(1) by (rule all_inv_round(1))
  with Suc.prems(3) have "pending ?g2 \<le> n" by simp
  from Suc.IH[OF i2 Suc.prems(2) this] show ?case by simp
qed

text \<open>
  C3. Conservation under the All strategy. A new Producer of the All kind, with input
  and Consumer queues of capacity at least \<open>N * M\<close>; some Consumers are registered
  (their contexts not done); then a run with \<open>N * M\<close> Write calls in which nobody
  closes the Producer, creates a Consumer or cancels one, the Writes, the steps of the
  strategy goroutine and the readers interleaved in any way. The run does not panic
  and the registry stays as it was; every item written went into the input queue, in
  the order of the calls (no Write was refused); at every moment all registered
  Consumers have received the same sequence, the items in the order the strategy
  goroutine processed them; once the input queue is drained, that sequence is the
  \<open>N * M\<close> items written; and the loop does drain it: after \<open>N * M\<close> further rounds
  of the loop the input queue is empty, the goroutine is back at its select, and
  every registered Consumer has received exactly the \<open>N * M\<close> items written, in the
  order of the Write calls.
\<close>

theorem All_conservation:
  assumes "list_all registers cr" "list_all steady evs"
    and "length (writes evs) = N * M" "N * M \<le> icap" "N * M \<le> ccap"
  shows "\<exists>(f :: 'a Producer) f'.
           run srt (NewProducer ProducerKind_All icap ccap) (cr @ evs) = Inr f
           \<and> consumers f = [0..<length cr]
           \<and> taken (input f) @ buf (input f) = writes evs
           \<and> (\<forall>p<length cr. received (heap f p) = processed f)
           \<and> (buf (input f) = [] \<and> dispatch f = At_select \<longrightarrow>
                (\<forall>p<length cr. received (heap f p) = writes evs
                    \<and> length (received (heap f p)) = N * M))
           \<and> run srt (NewProducer ProducerKind_All icap ccap)
                 (cr @ evs @ drain rnd clk (N * M)) = Inr f'
           \<and> consumers f' = [0..<length cr]
           \<and> buf (input f') = [] \<and> dispatch f' = At_select
           \<and> (\<forall>p<length cr. received (heap f' p) = writes evs
                    \<and> length (received (heap f' p)) = N * M)"
proof -
  let ?f0 = "NewProducer ProducerKind_All icap ccap :: 'a Producer"
  have n0: "nalloc ?f0 = 0" "consumer_buffer_size ?f0 = ccap"
    by (simp_all add: NewProducer_def)
  from all_inv_registers_run[OF all_inv_NewProducer n0(2) assms(1), where srt = srt] n0(1)
  obtain g where g: "run srt ?f0 cr = Inr g" "all_inv icap ccap [0..<length cr] [] g"
    by auto
  have "length ([] :: 'a list) + length (writes evs) \<le> icap"
    "length ([] :: 'a list) + length (writes evs) \<le> ccap"
    using assms(3,4,5) by simp_all
  from all_inv_run[OF g(2) assms(2) this, where srt = srt] obtain f where
    f: "run srt g evs = Inr f" "all_inv icap ccap [0..<length cr] (writes evs) f"
    by auto
  have r: "run srt ?f0 (cr @ evs) = Inr f"
    using g(1) f(1) by (simp add: run_append)
  from f(2) have 1: "consumers f = [0..<length cr]"
    and 2: "taken (input f) @ buf (input f) = writes evs"
    and 3: "\<forall>p<length cr. received (heap f p) = processed f"
    by (simp_all add: all_inv_def)
  have 4: "buf (input f) = [] \<and> dispatch f = At_select \<longrightarrow>
                (\<forall>p<length cr. received (heap f p) = writes evs
                    \<and> length (received (heap f p)) = N * M)"
  proof
    assume "buf (input f) = [] \<and> dispatch f = At_select"
    with 2 have "processed f = writes evs" by (simp add: processed_def)
    with 3 assms(3) show "\<forall>p<length cr. received (heap f p) = writes evs
                    \<and> length (received (heap f p)) = N * M"
      by simp
  qed
  have lw: "length (writes evs) \<le> ccap" using assms(3,5) by simp
  have "pending f \<le> N * M"
    using all_inv_pending_le[OF f(2)] assms(3) by simp
  from all_inv_drain[OF f(2) lw this, where srt = srt and rnd = rnd and clk = clk]
  obtain f' where f': "run srt f (drain rnd clk (N * M)) = Inr f'"
      "all_inv icap ccap [0..<length cr] (writes evs) f'"
      "buf (input f') = []" "dispatch f' = At_select"
    by blast
  have "run srt ?f0 ((cr @ evs) @ drain rnd clk (N * M)) = Inr f'"
    using r f'(1) by (simp only: run_append sum.case)
  then have r': "run srt ?f0 (cr @ evs @ drain rnd clk (N * M)) = Inr f'" by simp
  from f'(2) have 5: "consumers f' = [0..<length cr]"
    and 6: "taken (input f') @ buf (input f') = writes evs"
    and 7: "\<forall>p<length cr. received (heap f' p) = processed f'"
    by (simp_all add: all_inv_def)
  from 6 f'(3,4) have "processed f' = writes evs" by (simp add: processed_def)
  with 7 assms(3) have 8: "\<forall>p<length cr. received (heap f' p) = writes evs
                    \<and> length (received (heap f' p)) = N * M"
    by simp
  from r 1 2 3 4 r' 5 f'(3,4) 8 show ?thesis by blast
qed

theorem All_conservation_witness:
  "received (heap (projr (run insertion_sort (NewProducer ProducerKind_All 2 2 :: nat Producer)
      ([Ev_CreateConsumer ''c0'' False 1, Ev_CreateConsumer ''c1'' False 2]
       @ [Ev_Write 0 5, Ev_loop_select 0, Ev_Write 0 6, Ev_reader 0]
       @ drain 0 (\<lambda>_. 3) (2 * 1)))) 0) = [5, 6]
   \<and> received (heap (projr (run insertion_sort (NewProducer ProducerKind_All 2 2 :: nat Producer)
      ([Ev_CreateConsumer ''c0'' False 1, Ev_CreateConsumer ''c1'' False 2]
       @ [Ev_Write 0 5, Ev_loop_select 0, Ev_Write 0 6, Ev_reader 0]
       @ drain 0 (\<lambda>_. 3) (2 * 1)))) 1) = [5, 6]
   \<and> buf (input (projr (run insertion_sort (NewProducer ProducerKind_All 2 2 :: nat Producer)
      ([Ev_CreateConsumer ''c0'' False 1, Ev_CreateConsumer ''c1'' False 2]
       @ [Ev_Write 0 5, Ev_loop_select 0, Ev_Write 0 6, Ev_reader 0]
       @ drain 0 (\<lambda>_. 3) (2 * 1))))) = []
   \<and> buf (input (projr (run insertion_sort (NewProducer ProducerKind_All 2 2 :: nat Producer)
      ([Ev_CreateConsumer ''c0'' False 1, Ev_CreateConsumer ''c1'' False 2]
       @ [Ev_Write 0 5, Ev_loop_select 0, Ev_Write 0 6, Ev_reader 0])))) = [6]"
proof -
  define cr :: "nat event list" where
    "cr = [Ev_CreateConsumer ''c0'' False 1, Ev_CreateConsumer ''c1'' False 2]"
  define evs :: "nat event list" where
    "evs = [Ev_Write 0 5, Ev_loop_select 0, Ev_Write 0 6, Ev_reader 0]"
  define g where "g = projr (run insertion_sort (NewProducer ProducerKind_All 2 2 :: nat Producer)
      (cr @ evs @ drain 0 (\<lambda>_. 3) (2 * 1)))"
  have a: "list_all registers cr" "list_all steady evs" "length (writes evs) = 2 * 1"
    by (simp_all add: cr_def evs_def)
  have w: "writes evs = [5, 6]" "length cr = 2" by (simp_all add: evs_def cr_def)
  from All_conservation[OF a, where icap = 2 and ccap = 2 and srt = insertion_sort
      and rnd = 0 and clk = "\<lambda>_. 3"]
  obtain f f' where
    f: "run insertion_sort (NewProducer ProducerKind_All 2 2 :: nat Producer)
          (cr @ evs @ drain 0 (\<lambda>_. 3) (2 * 1)) = Inr f'"
      "buf (input f') = []"
      "\<forall>p<length cr. received (heap f' p) = writes evs \<and> length (received (heap f' p)) = 2 * 1"
    by auto
  from f(1) have fg: "f' = g" by (simp only: g_def sum.sel)
  from f(3) fg w have 1: "received (heap g 0) = [5, 6]" "received (heap g 1) = [5, 6]"
    by simp_all
  from f(2) fg have 2: "buf (input g) = []" by simp
  have 3: "buf (input (projr (run insertion_sort (NewProducer ProducerKind_All 2 2 :: nat Producer)
      (cr @ evs)))) = [6]"
    by (simp add: cr_def evs_def exec_defs)
  show ?thesis
    using 1 2 3 unfolding g_def cr_def evs_def by blast
qed

subsection \<open>C4: Write and a full input queue\<close>

text \<open>
  C4, as stated: while shutdown has not begun, Write returns BufferFull if and only if
  the input queue has no free capacity. It fails on an input queue of capacity 0:
  once the strategy goroutine is parked in its select, a Write hands it the item
  and returns nil, though the queue has no free slot.
\<close>

theorem Write_on_unbuffered_input_succeeds:
  "loop_select 0 (NewProducer ProducerKind_All 0 0 :: nat Producer)
     = (NewProducer ProducerKind_All 0 0)\<lparr>input := \<lparr>buf = [], cap = 0, recvq = True, taken = []\<rparr>\<rparr>
   \<and> \<not> done_chan ((NewProducer ProducerKind_All 0 0 :: nat Producer)
         \<lparr>input := \<lparr>buf = [], cap = 0, recvq = True, taken = []\<rparr>\<rparr>)
   \<and> \<not> length (buf (input ((NewProducer ProducerKind_All 0 0 :: nat Producer)
         \<lparr>input := \<lparr>buf = [], cap = 0, recvq = True, taken = []\<rparr>\<rparr>)))
       < cap (input ((NewProducer ProducerKind_All 0 0 :: nat Producer)
         \<lparr>input := \<lparr>buf = [], cap = 0, recvq = True, taken = []\<rparr>\<rparr>))
   \<and> fst (Write 0 7 ((NewProducer ProducerKind_All 0 0 :: nat Producer)
         \<lparr>input := \<lparr>buf = [], cap = 0, recvq = True, taken = []\<rparr>\<rparr>)) = None
   \<and> dispatch (snd (Write 0 7 ((NewProducer ProducerKind_All 0 0 :: nat Producer)
         \<lparr>input := \<lparr>buf = [], cap = 0, recvq = True, taken = []\<rparr>\<rparr>))) = Holding 7"
  by (simp add: loop_select_def NewProducer_def make_chan_def select2_def chan_recv_def
      ProducerKind_All_def ProducerKind_Single_def ProducerKind_LRU_def
      Write_def chan_ready_send_def send_input_def chan_send_def)

text \<open>
  C4, amended: in every state an execution reaches with shutdown not begun, Write
  returns BufferFull if and only if the input channel cannot take the item: its
  buffer has no free slot and the strategy goroutine is not parked on it. When the
  capacity is positive that is exactly: the input queue has no free capacity.
  BufferFull leaves the state as it is; otherwise Write returns nil at once, the
  item having been appended to the queue or handed to the parked goroutine.
\<close>

theorem Write_BufferFull_iff:
  assumes "sort_contract srt" "run srt (NewProducer k i n) evs = Inr f" "\<not> done_chan f"
  shows "(fst (Write rnd item f) = Some ErrBufferFull
            \<longleftrightarrow> \<not> recvq (input f) \<and> cap (input f) \<le> length (buf (input f)))
       \<and> (0 < cap (input f) \<longrightarrow>
            (fst (Write rnd item f) = Some ErrBufferFull \<longleftrightarrow> cap (input f) \<le> length (buf (input f))))
       \<and> (fst (Write rnd item f) = Some ErrBufferFull \<longrightarrow> snd (Write rnd item f) = f)
       \<and> (fst (Write rnd item f) \<noteq> Some ErrBufferFull \<longrightarrow>
            fst (Write rnd item f) = None
            \<and> (if recvq (input f)
                then dispatch (snd (Write rnd item f)) = Holding item
                   \<and> buf (input (snd (Write rnd item f))) = buf (input f)
                else dispatch (snd (Write rnd item f)) = dispatch f
                   \<and> buf (input (snd (Write rnd item f))) = buf (input f) @ [item]))"
proof -
  have "consistent f" using assms(1,2) by (rule reachable_consistent)
  then have "recvq (input f) \<longrightarrow> buf (input f) = []"
    by (simp add: consistent_def)
  then show ?thesis using assms(3)
    by (auto simp: Write_def select2_def chan_ready_send_def send_input_def chan_send_def)
qed

theorem Write_BufferFull_iff_witness:
  "sort_contract insertion_sort
   \<and> run insertion_sort (NewProducer ProducerKind_All 1 1 :: nat Producer) [Ev_Write 0 5]
       = Inr ((NewProducer ProducerKind_All 1 1)\<lparr>input := \<lparr>buf = [5], cap = 1, recvq = False, taken = []\<rparr>\<rparr>)
   \<and> fst (Write 0 7 ((NewProducer ProducerKind_All 1 1 :: nat Producer)
         \<lparr>input := \<lparr>buf = [5], cap = 1, recvq = False, taken = []\<rparr>\<rparr>)) = Some ErrBufferFull"
proof -
  let ?f = "(NewProducer ProducerKind_All 1 1 :: nat Producer)
         \<lparr>input := \<lparr>buf = [5], cap = 1, recvq = False, taken = []\<rparr>\<rparr>"
  have r: "run insertion_sort (NewProducer ProducerKind_All 1 1 :: nat Producer) [Ev_Write 0 5] = Inr ?f"
    by (simp add: Write_def select2_def chan_ready_send_def send_input_def chan_send_def
        NewProducer_def make_chan_def)
  have d: "\<not> done_chan ?f" by (simp add: NewProducer_def)
  show ?thesis
    using Write_BufferFull_iff[OF insertion_sort_contract r d, of 0 7] r insertion_sort_contract
    by (simp add: NewProducer_def make_chan_def)
qed

subsection \<open>C5: Close is idempotent\<close>

lemma step_keeps_done:
  "\<not> is_Close e \<Longrightarrow> step srt f e = Inr f' \<Longrightarrow>
   done_chan f' = done_chan f \<and> closeOnce f' = closeOnce f"
  by (cases e)
    (auto simp: Write_def send_input_def select2_def CreateConsumer_def Let_def loop_select_def
      loop_deliver_fields closer_def on_consumer_def remover_def
      split: loop.splits list.splits choice.splits if_splits)

lemma Close_twice:
  "consistent f \<Longrightarrow> \<exists>f1. Close f = Inr f1 \<and> Close f1 = Inr f1 \<and> done_chan f1 \<and> closeOnce f1"
  by (auto simp: consistent_def Close_def close_done_def)

lemma Close_closed: "closeOnce f \<Longrightarrow> Close f = Inr f"
  by (simp add: Close_def)

lemma Close_sets_Once: "Close f = Inr f' \<Longrightarrow> closeOnce f'"
  by (auto simp: Close_def close_done_def split: if_splits sum.splits)

lemma run_close_once: "run srt f evs = run srt f (close_once (closeOnce f) evs)"
proof (induction evs arbitrary: f)
  case Nil
  then show ?case by simp
next
  case (Cons e es)
  show ?case
  proof (cases "is_Close e")
    case True
    then have e: "e = Ev_Close" by (cases e) auto
    show ?thesis
    proof (cases "closeOnce f")
      case True
      then show ?thesis using e Cons.IH[of f] by (simp add: Close_closed)
    next
      case False
      show ?thesis
      proof (cases "Close f")
        case (Inl x)
        then show ?thesis using e False by simp
      next
        case (Inr f')
        then have "closeOnce f'" by (rule Close_sets_Once)
        then show ?thesis using e False Inr Cons.IH[of f'] by simp
      qed
    qed
  next
    case False
    show ?thesis
    proof (cases "step srt f e")
      case (Inl x)
      then show ?thesis using False by simp
    next
      case (Inr f')
      then have "closeOnce f' = closeOnce f" using step_keeps_done[OF False] by blast
      then show ?thesis using False Inr Cons.IH[of f'] by simp
    qed
  qed
qed

lemma run_done:
  "sort_contract srt \<Longrightarrow> consistent f \<Longrightarrow>
   \<exists>g. run srt f evs = Inr g \<and> consistent g \<and> done_chan g = (done_chan f \<or> list_ex is_Close evs)"
proof (induction evs arbitrary: f)
  case Nil
  then show ?case by simp
next
  case (Cons e es)
  from consistent_step[OF Cons.prems] obtain f1 where f1: "step srt f e = Inr f1" "consistent f1"
    by blast
  from Cons.IH[OF Cons.prems(1) f1(2)] obtain g where
    g: "run srt f1 es = Inr g" "consistent g" "done_chan g = (done_chan f1 \<or> list_ex is_Close es)"
    by blast
  have "done_chan f1 = (done_chan f \<or> is_Close e)"
  proof (cases "is_Close e")
    case True
    then have "e = Ev_Close" by (cases e) auto
    then show ?thesis using f1(1) Close_twice[OF Cons.prems(2)] True by auto
  next
    case False
    then show ?thesis using step_keeps_done[OF False f1(1)] by simp
  qed
  then show ?case using f1 g by auto
qed

lemma flips_count:
  "sort_contract srt \<Longrightarrow> consistent f \<Longrightarrow>
   flips srt f evs = (if \<not> done_chan f \<and> list_ex is_Close evs then 1 else 0)"
proof (induction evs arbitrary: f)
  case Nil
  then show ?case by simp
next
  case (Cons e es)
  from consistent_step[OF Cons.prems] obtain f1 where f1: "step srt f e = Inr f1" "consistent f1"
    by blast
  have d: "done_chan f1 = (done_chan f \<or> is_Close e)"
  proof (cases "is_Close e")
    case True
    then have "e = Ev_Close" by (cases e) auto
    then show ?thesis using f1(1) Close_twice[OF Cons.prems(2)] True by auto
  next
    case False
    then show ?thesis using step_keeps_done[OF False f1(1)] by simp
  qed
  show ?case using Cons.IH[OF Cons.prems(1) f1(2)] f1(1) d by auto
qed

text \<open>
  C5. Close is idempotent. From a new Producer, whatever the events of an execution
  and however many calls of Close are among them: the execution does not panic;
  \<^verbatim>\<open>done\<close> is closed at its end exactly when Close was called; in the state reached,
  a call of Close succeeds and a second call changes nothing; the execution ends in
  the same state as the one with every call of Close after the first left out; and
  \<^verbatim>\<open>done\<close> goes from open to closed once (never, when Close is not called).
\<close>

theorem Close_idempotent:
  assumes "sort_contract srt"
  shows "(\<exists>g. run srt (NewProducer k i n) evs = Inr g
            \<and> done_chan g = list_ex is_Close evs
            \<and> (\<exists>g1. Close g = Inr g1 \<and> Close g1 = Inr g1 \<and> done_chan g1))
       \<and> run srt (NewProducer k i n) evs = run srt (NewProducer k i n) (close_once False evs)
       \<and> flips srt (NewProducer k i n) evs = (if list_ex is_Close evs then 1 else 0)"
proof -
  let ?f = "NewProducer k i n :: 'a Producer"
  have c: "consistent ?f" by (rule consistent_NewProducer)
  have d: "\<not> done_chan ?f" "\<not> closeOnce ?f" by (simp_all add: NewProducer_def)
  from run_done[OF assms c, of evs] obtain g where
    g: "run srt ?f evs = Inr g" "consistent g" "done_chan g = (done_chan ?f \<or> list_ex is_Close evs)"
    by blast
  from Close_twice[OF g(2)] g(1,3) d
  have 1: "\<exists>g. run srt ?f evs = Inr g \<and> done_chan g = list_ex is_Close evs
            \<and> (\<exists>g1. Close g = Inr g1 \<and> Close g1 = Inr g1 \<and> done_chan g1)"
    by auto
  have 2: "run srt ?f evs = run srt ?f (close_once False evs)"
    using run_close_once[of srt ?f evs] d by simp
  have 3: "flips srt ?f evs = (if list_ex is_Close evs then 1 else 0)"
    using flips_count[OF assms c, of evs] d by simp
  from 1 2 3 show ?thesis by blast
qed

theorem Close_idempotent_witness:
  "sort_contract insertion_sort
   \<and> run insertion_sort (NewProducer ProducerKind_All 1 1 :: nat Producer)
         [Ev_Close, Ev_Write 1 7, Ev_Close]
       = run insertion_sort (NewProducer ProducerKind_All 1 1) [Ev_Close, Ev_Write 1 7]
   \<and> flips insertion_sort (NewProducer ProducerKind_All 1 1 :: nat Producer)
         [Ev_Close, Ev_Write 1 7, Ev_Close] = 1"
  using Close_idempotent[OF insertion_sort_contract, of ProducerKind_All 1 1
      "[Ev_Close, Ev_Write 1 (7::nat), Ev_Close]"] insertion_sort_contract
  by simp

subsection \<open>C6: what delivery changes\<close>

lemma only_pushed_update:
  assumes "t \<in> set (consumers f)"
  shows "only_pushed item f ((heap f)(t := try_push now item (heap f t)))"
  unfolding only_pushed_def
proof
  fix p
  show "((heap f)(t := try_push now item (heap f t))) p = heap f p
     \<or> (p \<in> set (consumers f) \<and> chan_ready_send (Messages (heap f p))
        \<and> (\<exists>u. ((heap f)(t := try_push now item (heap f t))) p
              = (heap f p)\<lparr>Messages := chan_send item (Messages (heap f p)), lastUsed := u\<rparr>))"
    using assms try_push_cases[of now item "heap f t"] by (cases "p = t") auto
qed

lemma only_pushed_same: "only_pushed item f (heap f)"
  by (simp add: only_pushed_def)

lemma only_pushed_single: "only_pushed item f (heap (goroutine_Producer_single rnd clk item f))"
proof (cases "consumers f = []")
  case True
  then show ?thesis by (simp add: goroutine_Producer_single_def only_pushed_same)
next
  case False
  then have "consumers f ! (rnd mod length (consumers f)) \<in> set (consumers f)"
    by simp
  then show ?thesis
    using False by (simp add: goroutine_Producer_single_def Let_def only_pushed_update)
qed

lemma only_pushed_lru:
  assumes "sort_contract srt"
  shows "only_pushed item f (heap (goroutine_Producer_lru srt clk item f))"
proof (cases "consumers f = []")
  case True
  then show ?thesis by (simp add: goroutine_Producer_lru_def only_pushed_same)
next
  case False
  from sorted_nonempty[OF assms False, of "heap f"] obtain t rest where
    tr: "srt (ConsumerList_Less (heap f)) (consumers f) = t # rest" by blast
  from sorted_head_least(1)[OF assms tr] have "t \<in> set (consumers f)" .
  then show ?thesis
    using False tr by (simp add: goroutine_Producer_lru_def only_pushed_update)
qed

lemma only_pushed_all:
  assumes "distinct (consumers f)"
  shows "only_pushed item f (heap (goroutine_Producer_all clk item f))"
  unfolding only_pushed_def
proof
  fix p
  let ?h = "heap (goroutine_Producer_all clk item f)"
  show "?h p = heap f p
     \<or> (p \<in> set (consumers f) \<and> chan_ready_send (Messages (heap f p))
        \<and> (\<exists>t. ?h p = (heap f p)\<lparr>Messages := chan_send item (Messages (heap f p)), lastUsed := t\<rparr>))"
  proof (cases "p \<in> set (consumers f)")
    case False
    then show ?thesis by (simp add: goroutine_Producer_all_def all_loop_other)
  next
    case True
    from all_loop_member[OF assms True, of clk 0 item "heap f"] obtain j where
      "?h p = try_push (clk j) item (heap f p)"
      by (auto simp: goroutine_Producer_all_def)
    with True try_push_cases[of "clk j" item "heap f p"] show ?thesis by auto
  qed
qed

text \<open>
  C6. Selection and delivery leave the membership of the registry alone and change
  of a Consumer only its queue and its lastUsed, and only by a send that went
  through. In every state an execution reaches: the select that takes the item
  changes neither the registry nor any Consumer; and for each of the three strategies
  the section that delivers an item keeps the entries of the registry (the LRU
  section may reorder them) and the set of allocated Consumers, and leaves every
  Consumer as it is unless it is registered and its queue could take the item, in
  which case the item is sent and lastUsed is set.
\<close>

theorem delivery_frame:
  assumes "sort_contract srt" "run srt (NewProducer k i n) evs = Inr (f :: 'a Producer)"
  shows "consumers (loop_select rnd f) = consumers f \<and> heap (loop_select rnd f) = heap f
       \<and> consumers (goroutine_Producer_single rnd clk item f) = consumers f
       \<and> mset (consumers (goroutine_Producer_lru srt clk item f)) = mset (consumers f)
       \<and> consumers (goroutine_Producer_all clk item f) = consumers f
       \<and> nalloc (loop_deliver srt rnd clk f) = nalloc f
       \<and> removers (loop_deliver srt rnd clk f) = removers f
       \<and> mset (consumers (loop_deliver srt rnd clk f)) = mset (consumers f)
       \<and> only_pushed item f (heap (goroutine_Producer_single rnd clk item f))
       \<and> only_pushed item f (heap (goroutine_Producer_lru srt clk item f))
       \<and> only_pushed item f (heap (goroutine_Producer_all clk item f))"
proof -
  have c: "consistent f" using assms by (rule reachable_consistent)
  then have d: "distinct (consumers f)" by (simp add: consistent_def)
  have 1: "consumers (loop_select rnd f) = consumers f \<and> heap (loop_select rnd f) = heap f"
    by (simp add: loop_select_def split: loop.splits choice.splits list.splits)
  have 2: "consumers (goroutine_Producer_single rnd clk item f) = consumers f"
    by (simp add: goroutine_Producer_single_def Let_def)
  have 3: "mset (consumers (goroutine_Producer_lru srt clk item f)) = mset (consumers f)"
    using assms(1) by (rule lru_mset)
  have 4: "consumers (goroutine_Producer_all clk item f) = consumers f"
    by (simp add: goroutine_Producer_all_def)
  have 5: "mset (consumers (loop_deliver srt rnd clk f)) = mset (consumers f)"
    by (simp add: loop_deliver_def goroutine_Producer_single_def goroutine_Producer_all_def
        Let_def lru_mset[OF assms(1)] split: loop.splits)
  from 1 2 3 4 5 only_pushed_single[of item f rnd clk] only_pushed_lru[OF assms(1), of item f clk]
    only_pushed_all[OF d, of item clk]
  show ?thesis by (simp add: loop_deliver_fields)
qed

theorem delivery_frame_witness:
  "run insertion_sort (NewProducer ProducerKind_All 1 1 :: nat Producer)
      [Ev_CreateConsumer ''c0'' False 1, Ev_CreateConsumer ''c1'' False 2, Ev_Write 0 7, Ev_loop_select 0]
     = Inr (projr (run insertion_sort (NewProducer ProducerKind_All 1 1 :: nat Producer)
      [Ev_CreateConsumer ''c0'' False 1, Ev_CreateConsumer ''c1'' False 2, Ev_Write 0 7, Ev_loop_select 0]))
   \<and> dispatch (projr (run insertion_sort (NewProducer ProducerKind_All 1 1 :: nat Producer)
      [Ev_CreateConsumer ''c0'' False 1, Ev_CreateConsumer ''c1'' False 2, Ev_Write 0 7, Ev_loop_select 0]))
     = Holding 7
   \<and> consumers (goroutine_Producer_all (\<lambda>_. 9) 7
       (projr (run insertion_sort (NewProducer ProducerKind_All 1 1 :: nat Producer)
      [Ev_CreateConsumer ''c0'' False 1, Ev_CreateConsumer ''c1'' False 2, Ev_Write 0 7, Ev_loop_select 0])))
     = [0, 1]
   \<and> only_pushed 7
       (projr (run insertion_sort (NewProducer ProducerKind_All 1 1 :: nat Producer)
      [Ev_CreateConsumer ''c0'' False 1, Ev_CreateConsumer ''c1'' False 2, Ev_Write 0 7, Ev_loop_select 0]))
       (heap (goroutine_Producer_all (\<lambda>_. 9) 7
       (projr (run insertion_sort (NewProducer ProducerKind_All 1 1 :: nat Producer)
      [Ev_CreateConsumer ''c0'' False 1, Ev_CreateConsumer ''c1'' False 2, Ev_Write 0 7, Ev_loop_select 0]))))
   \<and> received (heap (goroutine_Producer_all (\<lambda>_. 9) 7
       (projr (run insertion_sort (NewProducer ProducerKind_All 1 1 :: nat Producer)
      [Ev_CreateConsumer ''c0'' False 1, Ev_CreateConsumer ''c1'' False 2, Ev_Write 0 7, Ev_loop_select 0]))) 1)
     = [7]"
proof -
  define g where "g = projr (run insertion_sort (NewProducer ProducerKind_All 1 1 :: nat Producer)
      [Ev_CreateConsumer ''c0'' False 1, Ev_CreateConsumer ''c1'' False 2, Ev_Write 0 7, Ev_loop_select 0])"
  have r: "run insertion_sort (NewProducer ProducerKind_All 1 1 :: nat Producer)
      [Ev_CreateConsumer ''c0'' False 1, Ev_CreateConsumer ''c1'' False 2, Ev_Write 0 7, Ev_loop_select 0]
      = Inr g"
    by (simp add: g_def exec_defs)
  have h: "dispatch g = Holding 7"
    by (simp add: g_def exec_defs)
  have c: "consumers g = [0, 1]"
    by (simp add: g_def exec_defs)
  have v: "received (heap (goroutine_Producer_all (\<lambda>_. 9) 7 g) 1) = [7]"
    by (simp add: g_def exec_defs)
  note t = delivery_frame[OF insertion_sort_contract r, of 0 "\<lambda>_. 9" 7]
  from t c have a: "consumers (goroutine_Producer_all (\<lambda>_. 9) 7 g) = [0, 1]" by simp
  from t have b: "only_pushed 7 g (heap (goroutine_Producer_all (\<lambda>_. 9) 7 g))" by blast
  show ?thesis
    using r h a b v unfolding g_def by blast
qed

subsection \<open>C7: removal from the registry\<close>

lemma ctx_done_close_all: "ctx_done (h p) \<Longrightarrow> ctx_done (close_all ps h p)"
  by (induction ps arbitrary: h) (auto simp: Consumer_Close_def)

lemma remover_fires:
  assumes "consistent f" "p \<in> removers f" "ctx_done (heap f p)"
  shows "length (consumers (remover p f)) + 1 = length (consumers f)"
    and "set (consumers (remover p f)) = set (consumers f) - {p}"
    and "removers (remover p f) = removers f - {p}"
proof -
  from assms(1) have d: "distinct (consumers f)" and s: "set (consumers f) = removers f"
    by (simp_all add: consistent_def)
  from s assms(2) have "p \<in> set (consumers f)" by simp
  then have "length (remove1 p (consumers f)) + 1 = length (consumers f)"
    using length_pos_if_in_set[of p "consumers f"] by (simp add: length_remove1)
  then show "length (consumers (remover p f)) + 1 = length (consumers f)"
    using assms(2,3) by (simp add: remover_def removeByIdentity_remove1)
  show "set (consumers (remover p f)) = set (consumers f) - {p}"
    using assms(2,3) d by (simp add: remover_def removeByIdentity_remove1)
  show "removers (remover p f) = removers f - {p}"
    using assms(2,3) by (simp add: remover_def)
qed

lemma remover_twice: "remover p (remover p f) = remover p f"
  by (simp add: remover_def)

lemma remover_closer_commute:
  assumes "p \<in> removers f" "ctx_done (heap f p)"
  shows "consumers (remover p (closer f)) = removeByIdentity p (consumers f)"
    and "consumers (closer (remover p f)) = removeByIdentity p (consumers f)"
  using assms by (simp_all add: remover_def closer_def ctx_done_close_all)

text \<open>
  C7. Removal from the registry is safe to repeat, and a cancelled Consumer leaves the
  registry exactly once. In every state an execution reaches: removing a Consumer
  that is not in the registry leaves the registry as it is; the registry holds each
  Consumer at most once, and as many Consumers as removal goroutines have not run
  yet; the removal goroutine of a Consumer whose context is done takes exactly that
  Consumer out, so the count goes down by one; before the context is done, and once
  it has run, the goroutine changes nothing; the Consumer's own Close cancels once;
  and when the removal races with the shutdown goroutine that closes every registered
  Consumer, either order leaves the same registry, the Consumer removed once.
\<close>

theorem removal_exactly_once:
  assumes "sort_contract srt" "run srt (NewProducer k i n) evs = Inr (f :: 'a Producer)"
  shows "(p \<notin> set (consumers f) \<longrightarrow> removeByIdentity p (consumers f) = consumers f)
       \<and> distinct (consumers f) \<and> length (consumers f) = card (removers f)
       \<and> (p \<in> removers f \<and> ctx_done (heap f p) \<longrightarrow>
            length (consumers (remover p f)) + 1 = length (consumers f)
            \<and> set (consumers (remover p f)) = set (consumers f) - {p}
            \<and> consumers (remover p (closer f)) = consumers (remover p f)
            \<and> consumers (closer (remover p f)) = consumers (remover p f))
       \<and> (\<not> (p \<in> removers f \<and> ctx_done (heap f p)) \<longrightarrow> remover p f = f)
       \<and> remover p (remover p f) = remover p f
       \<and> Consumer_Close (Consumer_Close c) = Consumer_Close (c :: 'a Consumer)"
proof -
  have c: "consistent f" using assms by (rule reachable_consistent)
  then have d: "distinct (consumers f)" and s: "set (consumers f) = removers f"
    by (simp_all add: consistent_def)
  have 1: "p \<notin> set (consumers f) \<longrightarrow> removeByIdentity p (consumers f) = consumers f"
    by (simp add: removeByIdentity_remove1 remove1_idem)
  have 2: "length (consumers f) = card (removers f)"
    using d s distinct_card[of "consumers f"] by simp
  have 3: "p \<in> removers f \<and> ctx_done (heap f p) \<longrightarrow>
            length (consumers (remover p f)) + 1 = length (consumers f)
            \<and> set (consumers (remover p f)) = set (consumers f) - {p}
            \<and> consumers (remover p (closer f)) = consumers (remover p f)
            \<and> consumers (closer (remover p f)) = consumers (remover p f)"
  proof
    assume a: "p \<in> removers f \<and> ctx_done (heap f p)"
    then have "consumers (remover p f) = removeByIdentity p (consumers f)"
      by (simp add: remover_def)
    with a remover_fires[OF c, of p] remover_closer_commute[of p f]
    show "length (consumers (remover p f)) + 1 = length (consumers f)
            \<and> set (consumers (remover p f)) = set (consumers f) - {p}
            \<and> consumers (remover p (closer f)) = consumers (remover p f)
            \<and> consumers (closer (remover p f)) = consumers (remover p f)"
      by simp
  qed
  have 4: "\<not> (p \<in> removers f \<and> ctx_done (heap f p)) \<longrightarrow> remover p f = f"
    by (simp add: remover_def)
  have 5: "Consumer_Close (Consumer_Close c) = Consumer_Close c"
    by (simp add: Consumer_Close_def)
  from 1 d 2 3 4 5 remover_twice[of p f] show ?thesis by blast
qed

theorem removal_exactly_once_witness:
  "run insertion_sort (NewProducer ProducerKind_All 1 1 :: nat Producer)
      [Ev_CreateConsumer ''c0'' False 0, Ev_CreateConsumer ''c1'' False 1, Ev_ctx_cancel 0, Ev_Close]
     = Inr (projr (run insertion_sort (NewProducer ProducerKind_All 1 1 :: nat Producer)
      [Ev_CreateConsumer ''c0'' False 0, Ev_CreateConsumer ''c1'' False 1, Ev_ctx_cancel 0, Ev_Close]))
   \<and> consumers (projr (run insertion_sort (NewProducer ProducerKind_All 1 1 :: nat Producer)
      [Ev_CreateConsumer ''c0'' False 0, Ev_CreateConsumer ''c1'' False 1, Ev_ctx_cancel 0, Ev_Close]))
     = [0, 1]
   \<and> length (consumers (remover 0 (projr (run insertion_sort (NewProducer ProducerKind_All 1 1 :: nat Producer)
      [Ev_CreateConsumer ''c0'' False 0, Ev_CreateConsumer ''c1'' False 1, Ev_ctx_cancel 0, Ev_Close]))))
     + 1 = 2
   \<and> consumers (remover 0 (closer (projr (run insertion_sort (NewProducer ProducerKind_All 1 1 :: nat Producer)
      [Ev_CreateConsumer ''c0'' False 0, Ev_CreateConsumer ''c1'' False 1, Ev_ctx_cancel 0, Ev_Close]))))
     = [1]"
proof -
  define g where "g = projr (run insertion_sort (NewProducer ProducerKind_All 1 1 :: nat Producer)
      [Ev_CreateConsumer ''c0'' False 0, Ev_CreateConsumer ''c1'' False 1, Ev_ctx_cancel 0, Ev_Close])"
  have r: "run insertion_sort (NewProducer ProducerKind_All 1 1 :: nat Producer)
      [Ev_CreateConsumer ''c0'' False 0, Ev_CreateConsumer ''c1'' False 1, Ev_ctx_cancel 0, Ev_Close]
      = Inr g"
    by (simp add: g_def exec_defs)
  have c: "consumers g = [0, 1]"
    by (simp add: g_def exec_defs)
  have e: "0 \<in> removers g \<and> ctx_done (heap g 0)"
    by (simp add: g_def exec_defs)
  have m: "consumers (remover 0 g) = [1]"
    using e c by (simp add: remover_def)
  note t = removal_exactly_once[OF insertion_sort_contract r, of 0]
  from t e have "length (consumers (remover 0 g)) + 1 = length (consumers g)" by blast
  with c have a: "length (consumers (remover 0 g)) + 1 = 2" by simp
  from t e have "consumers (remover 0 (closer g)) = consumers (remover 0 g)" by blast
  with m have b: "consumers (remover 0 (closer g)) = [1]" by simp
  show ?thesis
    using r c a b unfolding g_def by blast
qed

subsection \<open>C8: CreateConsumer after Close\<close>

text \<open>
  C8, as stated: no CreateConsumer call made after Close adds a Consumer to the
  registry. It fails: CreateConsumer never looks at \<^verbatim>\<open>done\<close>. After Close on a new
  Producer the registry is empty, and a CreateConsumer call then puts the Consumer 0
  into it.
\<close>

theorem CreateConsumer_after_Close_registers:
  "Close (NewProducer ProducerKind_All 1 1 :: nat Producer)
     = Inr ((NewProducer ProducerKind_All 1 1)\<lparr>done_chan := True, closeOnce := True\<rparr>)
   \<and> consumers ((NewProducer ProducerKind_All 1 1 :: nat Producer)\<lparr>done_chan := True, closeOnce := True\<rparr>) = []
   \<and> consumers (snd (CreateConsumer ''c0'' False 5
         ((NewProducer ProducerKind_All 1 1 :: nat Producer)\<lparr>done_chan := True, closeOnce := True\<rparr>))) = [0]"
  by (simp add: Close_def close_done_def NewProducer_def make_chan_def CreateConsumer_def)

text \<open>
  C8, amended: in every state of the Producer, open or closed, CreateConsumer appends
  the Consumer it creates to the registry (and leaves \<^verbatim>\<open>done\<close> as it is).
\<close>

theorem CreateConsumer_always_registers:
  "fst (CreateConsumer new_id parent_done now f) = nalloc f
   \<and> consumers (snd (CreateConsumer new_id parent_done now f)) = consumers f @ [nalloc f]
   \<and> done_chan (snd (CreateConsumer new_id parent_done now f)) = done_chan f"
  by (simp add: CreateConsumer_def Let_def)

theorem CreateConsumer_always_registers_witness:
  "consumers (snd (CreateConsumer ''c0'' False 5
      ((NewProducer ProducerKind_All 1 1 :: nat Producer)\<lparr>done_chan := True, closeOnce := True\<rparr>)))
   = [] @ [0]"
  using CreateConsumer_always_registers[of "''c0''" False 5
      "(NewProducer ProducerKind_All 1 1 :: nat Producer)\<lparr>done_chan := True, closeOnce := True\<rparr>"]
  by (simp add: NewProducer_def)

subsection \<open>C9: a kind that is none of the three\<close>

lemma Messages_close_all: "Messages (close_all ps h p) = Messages (h p)"
  by (induction ps arbitrary: h) (auto simp: Consumer_Close_def)

lemma not_started_step:
  assumes "step srt f e = Inr f'"
    and "dispatch f = Not_started" "\<not> recvq (input f)" "taken (input f) = []"
    and "\<forall>p. received (heap f p) = []"
  shows "dispatch f' = Not_started \<and> \<not> recvq (input f') \<and> taken (input f') = []
         \<and> (\<forall>p. received (heap f' p) = [])"
proof (cases e)
  case (Ev_Write rnd item)
  then show ?thesis using assms
    by (auto simp: snd_Write send_input_def chan_send_def split: if_splits loop.splits)
next
  case (Ev_CreateConsumer new_id parent_done now)
  then show ?thesis using assms
    by (auto simp: CreateConsumer_def Let_def newConsumer_def make_chan_def received_def split: if_splits loop.splits)
next
  case Ev_Close
  then show ?thesis using assms
    by (auto simp: Close_def close_done_def split: if_splits loop.splits)
next
  case (Ev_loop_select rnd)
  then show ?thesis using assms by (auto simp: loop_select_def split: if_splits loop.splits)
next
  case (Ev_loop_deliver rnd clk)
  then show ?thesis using assms by (auto simp: loop_deliver_def split: if_splits loop.splits)
next
  case Ev_closer
  then show ?thesis using assms
    by (auto simp: closer_def received_def Messages_close_all split: if_splits loop.splits)
next
  case (Ev_Consumer_Close p)
  then show ?thesis using assms
    by (auto simp: on_consumer_def Consumer_Close_def received_def split: if_splits loop.splits)
next
  case (Ev_ctx_cancel p)
  then show ?thesis using assms by (auto simp: on_consumer_def received_def split: if_splits loop.splits)
next
  case (Ev_remover p)
  then show ?thesis using assms by (auto simp: remover_def split: if_splits loop.splits)
next
  case (Ev_reader p)
  then show ?thesis using assms
    by (auto simp: on_consumer_def received_def chan_recv_def split: if_splits loop.splits)
next
  case (Ev_reader_leaves p)
  then show ?thesis using assms by (auto simp: on_consumer_def received_def split: if_splits loop.splits)
qed

lemma not_started_run:
  assumes "run srt f evs = Inr g"
    and "dispatch f = Not_started" "\<not> recvq (input f)" "taken (input f) = []"
    and "\<forall>p. received (heap f p) = []"
  shows "dispatch g = Not_started \<and> \<not> recvq (input g) \<and> taken (input g) = []
         \<and> (\<forall>p. received (heap g p) = [])"
  using assms
proof (induction evs arbitrary: f)
  case Nil
  then show ?case by simp
next
  case (Cons e es)
  from Cons.prems(1) obtain f1 where f1: "step srt f e = Inr f1" "run srt f1 es = Inr g"
    by (auto split: sum.splits)
  from not_started_step[OF f1(1) Cons.prems(2-5)] Cons.IH[OF f1(2)] show ?case by blast
qed

text \<open>
  C9. For a ProducerKind that is none of the three constants NewProducer starts no
  strategy goroutine. In every state an execution then reaches: there is still none;
  nothing was ever taken off the input queue; nothing was ever put into the queue of
  any Consumer; and a Write that finds a free slot in the input queue (and, once
  \<^verbatim>\<open>done\<close> is closed, whose select draws the send) appends its item and returns nil.
\<close>

theorem unknown_kind_never_delivers:
  assumes "k \<noteq> ProducerKind_Single" "k \<noteq> ProducerKind_LRU" "k \<noteq> ProducerKind_All"
    and "run srt (NewProducer k i n) evs = Inr (f :: 'a Producer)"
  shows "dispatch (NewProducer k i n :: 'a Producer) = Not_started
       \<and> dispatch f = Not_started
       \<and> taken (input f) = []
       \<and> (\<forall>p. received (heap f p) = [])
       \<and> (length (buf (input f)) < cap (input f) \<and> (\<not> done_chan f \<or> even rnd) \<longrightarrow>
            fst (Write rnd item f) = None
            \<and> buf (input (snd (Write rnd item f))) = buf (input f) @ [item])"
proof -
  let ?f0 = "NewProducer k i n :: 'a Producer"
  have 0: "dispatch ?f0 = Not_started" "\<not> recvq (input ?f0)" "taken (input ?f0) = []"
    "\<forall>p. received (heap ?f0 p) = []"
    using assms(1-3)
    by (simp_all add: NewProducer_def make_chan_def received_def nil_consumer_def)
  from not_started_run[OF assms(4) 0]
  have g: "dispatch f = Not_started" "\<not> recvq (input f)" "taken (input f) = []"
    "\<forall>p. received (heap f p) = []"
    by blast+
  have "length (buf (input f)) < cap (input f) \<and> (\<not> done_chan f \<or> even rnd) \<longrightarrow>
            fst (Write rnd item f) = None
            \<and> buf (input (snd (Write rnd item f))) = buf (input f) @ [item]"
    using g(2) by (auto simp: snd_Write fst_Write chan_ready_send_def send_input_def chan_send_def)
  with 0(1) g show ?thesis by blast
qed

theorem unknown_kind_never_delivers_witness:
  "run insertion_sort (NewProducer 7 2 1 :: nat Producer)
      [Ev_CreateConsumer ''c0'' False 0, Ev_Write 0 5, Ev_loop_select 0, Ev_loop_deliver 0 (\<lambda>_. 1)]
     = Inr (projr (run insertion_sort (NewProducer 7 2 1 :: nat Producer)
      [Ev_CreateConsumer ''c0'' False 0, Ev_Write 0 5, Ev_loop_select 0, Ev_loop_deliver 0 (\<lambda>_. 1)]))
   \<and> consumers (projr (run insertion_sort (NewProducer 7 2 1 :: nat Producer)
      [Ev_CreateConsumer ''c0'' False 0, Ev_Write 0 5, Ev_loop_select 0, Ev_loop_deliver 0 (\<lambda>_. 1)])) = [0]
   \<and> buf (input (projr (run insertion_sort (NewProducer 7 2 1 :: nat Producer)
      [Ev_CreateConsumer ''c0'' False 0, Ev_Write 0 5, Ev_loop_select 0, Ev_loop_deliver 0 (\<lambda>_. 1)]))) = [5]
   \<and> received (heap (projr (run insertion_sort (NewProducer 7 2 1 :: nat Producer)
      [Ev_CreateConsumer ''c0'' False 0, Ev_Write 0 5, Ev_loop_select 0, Ev_loop_deliver 0 (\<lambda>_. 1)])) 0) = []
   \<and> fst (Write 1 6 (projr (run insertion_sort (NewProducer 7 2 1 :: nat Producer)
      [Ev_CreateConsumer ''c0'' False 0, Ev_Write 0 5, Ev_loop_select 0, Ev_loop_deliver 0 (\<lambda>_. 1)]))) = None"
proof -
  define g where "g = projr (run insertion_sort (NewProducer 7 2 1 :: nat Producer)
      [Ev_CreateConsumer ''c0'' False 0, Ev_Write 0 5, Ev_loop_select 0, Ev_loop_deliver 0 (\<lambda>_. 1)])"
  have r: "run insertion_sort (NewProducer 7 2 1 :: nat Producer)
      [Ev_CreateConsumer ''c0'' False 0, Ev_Write 0 5, Ev_loop_select 0, Ev_loop_deliver 0 (\<lambda>_. 1)]
      = Inr g"
    by (simp add: g_def exec_defs)
  have k: "(7::int) \<noteq> ProducerKind_Single" "(7::int) \<noteq> ProducerKind_LRU" "(7::int) \<noteq> ProducerKind_All"
    by (simp_all add: exec_defs)
  have c: "consumers g = [0]" "buf (input g) = [5]"
    by (simp_all add: g_def exec_defs)
  have d: "cap (input g) = 2" "\<not> done_chan g"
    by (simp_all add: g_def exec_defs)
  note t = unknown_kind_never_delivers[OF k r, of 1 6]
  from t have a: "received (heap g 0) = []" by blast
  from t c d have b: "fst (Write 1 6 g) = None" by simp
  show ?thesis
    using r c a b unfolding g_def by blast
qed

subsection \<open>C10: the lastUsed of a new Consumer\<close>

text \<open>
  C10. newConsumer sets lastUsed to the creation time. After CreateConsumer in a state
  an execution reaches: the new Consumer's lastUsed is the time of the call and the
  Consumers registered before keep theirs; in the sorted registry every Consumer
  registered before whose lastUsed is older stands before the new one; and when
  there is such a Consumer the LRU section does not pick the new one but a Consumer
  with an older lastUsed.
\<close>

theorem fresh_consumer_not_preferred:
  assumes "sort_contract srt" "run srt (NewProducer k i n) evs = Inr (f :: 'a Producer)"
  shows "lastUsed (newConsumer new_id parent_done now cbs :: 'a Consumer) = now
       \<and> lastUsed (heap (snd (CreateConsumer new_id parent_done now f))
            (fst (CreateConsumer new_id parent_done now f))) = now
       \<and> (\<forall>c\<in>set (consumers f).
            lastUsed (heap (snd (CreateConsumer new_id parent_done now f)) c) = lastUsed (heap f c))
       \<and> (\<exists>ys zs. srt (ConsumerList_Less (heap (snd (CreateConsumer new_id parent_done now f))))
                      (consumers (snd (CreateConsumer new_id parent_done now f)))
                    = ys @ fst (CreateConsumer new_id parent_done now f) # zs
              \<and> (\<forall>c\<in>set (consumers f). lastUsed (heap f c) < now \<longrightarrow> c \<in> set ys))
       \<and> ((\<exists>c\<in>set (consumers f). lastUsed (heap f c) < now) \<longrightarrow>
            (\<exists>t. lru_target srt (snd (CreateConsumer new_id parent_done now f)) = Some t
               \<and> t \<noteq> fst (CreateConsumer new_id parent_done now f)
               \<and> lastUsed (heap (snd (CreateConsumer new_id parent_done now f)) t) < now))"
proof -
  let ?p = "fst (CreateConsumer new_id parent_done now f)"
  let ?f' = "snd (CreateConsumer new_id parent_done now f)"
  have c: "consistent f" using assms by (rule reachable_consistent)
  then have old: "\<forall>c\<in>set (consumers f). c < nalloc f"
    by (simp add: consistent_def)
  have p: "?p = nalloc f" and cs: "consumers ?f' = consumers f @ [nalloc f]"
    and hp: "heap ?f' = (heap f)(nalloc f := newConsumer new_id parent_done now (consumer_buffer_size f))"
    by (simp_all add: CreateConsumer_def Let_def)
  have 0: "lastUsed (newConsumer new_id parent_done now cbs :: 'a Consumer) = now"
    by (simp add: newConsumer_def)
  have 1: "lastUsed (heap ?f' ?p) = now"
    by (simp add: p hp newConsumer_def)
  have 2: "\<forall>c\<in>set (consumers f). lastUsed (heap ?f' c) = lastUsed (heap f c)"
    using old by (auto simp: hp)
  have pin: "?p \<in> set (consumers ?f')" by (simp add: p cs)
  from older_sorts_before[OF assms(1) pin, of "heap ?f'"] obtain ys zs where
    yz: "srt (ConsumerList_Less (heap ?f')) (consumers ?f') = ys @ ?p # zs" "?p \<notin> set ys"
      "\<forall>c\<in>set (consumers ?f'). lastUsed (heap ?f' c) < lastUsed (heap ?f' ?p) \<longrightarrow> c \<in> set ys"
    by blast
  have 3: "\<forall>c\<in>set (consumers f). lastUsed (heap f c) < now \<longrightarrow> c \<in> set ys"
    using yz(3) 1 2 cs by auto
  have 4: "(\<exists>c\<in>set (consumers f). lastUsed (heap f c) < now) \<longrightarrow>
            (\<exists>t. lru_target srt ?f' = Some t \<and> t \<noteq> ?p \<and> lastUsed (heap ?f' t) < now)"
  proof
    assume "\<exists>c\<in>set (consumers f). lastUsed (heap f c) < now"
    then obtain c where c: "c \<in> set (consumers f)" "lastUsed (heap f c) < now" by blast
    have ne: "consumers ?f' \<noteq> []" by (simp add: cs)
    from sorted_nonempty[OF assms(1) ne, of "heap ?f'"] obtain t rest where
      tr: "srt (ConsumerList_Less (heap ?f')) (consumers ?f') = t # rest" by blast
    have l: "lru_target srt ?f' = Some t"
      using tr ne by (simp add: lru_target_def)
    have "c \<in> set (consumers ?f')" using c(1) cs by simp
    with sorted_head_least(2)[OF assms(1) tr] have "lastUsed (heap ?f' t) \<le> lastUsed (heap ?f' c)"
      by blast
    with c 2 have lt: "lastUsed (heap ?f' t) < now" by auto
    with 1 have "t \<noteq> ?p" by auto
    with l lt show "\<exists>t. lru_target srt ?f' = Some t \<and> t \<noteq> ?p \<and> lastUsed (heap ?f' t) < now"
      by blast
  qed
  from 0 1 2 3 4 yz(1) show ?thesis by blast
qed

theorem fresh_consumer_not_preferred_witness:
  "sort_contract insertion_sort
   \<and> consumers (projr (run insertion_sort (NewProducer ProducerKind_LRU 2 2 :: nat Producer)
        [Ev_CreateConsumer ''c0'' False 5, Ev_CreateConsumer ''c1'' False 3])) = [0, 1]
   \<and> fst (CreateConsumer ''c2'' False 8
        (projr (run insertion_sort (NewProducer ProducerKind_LRU 2 2 :: nat Producer)
        [Ev_CreateConsumer ''c0'' False 5, Ev_CreateConsumer ''c1'' False 3]))) = 2
   \<and> lru_target insertion_sort (snd (CreateConsumer ''c2'' False 8
        (projr (run insertion_sort (NewProducer ProducerKind_LRU 2 2 :: nat Producer)
        [Ev_CreateConsumer ''c0'' False 5, Ev_CreateConsumer ''c1'' False 3])))) = Some 1
   \<and> lastUsed (heap (snd (CreateConsumer ''c2'' False 8
        (projr (run insertion_sort (NewProducer ProducerKind_LRU 2 2 :: nat Producer)
        [Ev_CreateConsumer ''c0'' False 5, Ev_CreateConsumer ''c1'' False 3])))) 2) = 8"
proof -
  define g where "g = projr (run insertion_sort (NewProducer ProducerKind_LRU 2 2 :: nat Producer)
        [Ev_CreateConsumer ''c0'' False 5, Ev_CreateConsumer ''c1'' False 3])"
  have r: "run insertion_sort (NewProducer ProducerKind_LRU 2 2 :: nat Producer)
        [Ev_CreateConsumer ''c0'' False 5, Ev_CreateConsumer ''c1'' False 3] = Inr g"
    by (simp add: g_def exec_defs)
  have c: "consumers g = [0, 1]"
    by (simp add: g_def exec_defs)
  have p: "fst (CreateConsumer ''c2'' False 8 g) = 2"
    by (simp add: g_def exec_defs)
  have l: "lru_target insertion_sort (snd (CreateConsumer ''c2'' False 8 g)) = Some 1"
    by (simp add: g_def lru_target_def exec_defs)
  from fresh_consumer_not_preferred[OF insertion_sort_contract r, of "''c2''" False 8]
  have t: "lastUsed (heap (snd (CreateConsumer ''c2'' False 8 g)) (fst (CreateConsumer ''c2'' False 8 g))) = 8"
    by blast
  with p have u: "lastUsed (heap (snd (CreateConsumer ''c2'' False 8 g)) 2) = 8" by simp
  show ?thesis
    using insertion_sort_contract c p l u unfolding g_def by blast
qed

end
